theory Spec2Isabelle
  imports Main
begin

section \<open>Character diff of the mentions input widget\<close>

text \<open>
  The functions \<open>diffChars\<close>, \<open>buildValues\<close>, \<open>pushComponent\<close>, \<open>extractCommon\<close> and
  \<open>clonePath\<close> of the mentions-input script, embedded as HOL functions.

  Strings are lists over an arbitrary element type; \<open>s[i]\<close> on a string is \<open>charAt\<close>,
  which is \<open>None\<close> (the script's \<open>undefined\<close>) outside the string.
  The flags \<open>added\<close> and \<open>removed\<close> of a component only ever hold \<open>true\<close> or
  \<open>undefined\<close> (or are absent); they are booleans here, \<open>False\<close> for undefined or absent.

  The script mutates paths and arrays in place. No path object is reachable from two
  places when it is mutated: \<open>addPath\<close> is taken out of the table before it is reused,
  \<open>removePath\<close> is cloned, \<open>clonePath\<close> copies the array of components, and
  \<open>pushComponent\<close> replaces the last component by a new object instead of changing it.
  So paths are values here, and a pass returns the table it leaves.
\<close>

subsection \<open>Data\<close>

text \<open>A component while the search runs: \<open>{count, added, removed}\<close>.\<close>

record change =
  count :: nat
  added :: bool
  removed :: bool

text \<open>A search path: \<open>{newPos, components}\<close>. \<open>newPos\<close> is the index of the last
  consumed character of the new string, \<open>-1\<close> before the first.\<close>

record path =
  newPos :: int
  components :: "change list"

text \<open>A component of a returned script. The three direct returns of \<open>diffChars\<close> build
  objects without a \<open>count\<close> property; \<open>buildValues\<close> adds \<open>value\<close> to objects that have
  one.\<close>

record 'a component =
  count :: "nat option"
  added :: bool
  removed :: bool
  "value" :: "'a list"

text \<open>How a call can end without a script: the loop over edit lengths runs out and the
  function returns \<open>undefined\<close>, or a property of \<open>undefined\<close> is read.\<close>

datatype failure = NoResult | TypeError

text \<open>What one pass of \<open>execEditLength\<close> leaves: a returned script, the table of best
  paths for the next pass, or a thrown TypeError.\<close>

datatype 'a outcome =
  Return "'a component list"
| Next "int \<Rightarrow> path option"
| Throw

subsection \<open>Helpers\<close>

definition charAt :: "'a list \<Rightarrow> int \<Rightarrow> 'a option" where
  "charAt s i = (if 0 \<le> i \<and> i < int (length s) then Some (s ! nat i) else None)"

definition slice :: "'a list \<Rightarrow> nat \<Rightarrow> nat \<Rightarrow> 'a list" where
  "slice s b e = take (e - b) (drop b s)"

definition clonePath :: "path \<Rightarrow> path" where
  "clonePath p = \<lparr>newPos = newPos p, components = components p\<rparr>"

definition pushComponent :: "change list \<Rightarrow> bool \<Rightarrow> bool \<Rightarrow> change list" where
  "pushComponent comps a r =
     (if comps \<noteq> [] \<and> change.added (last comps) = a \<and> change.removed (last comps) = r
      then butlast comps @ [\<lparr>change.count = change.count (last comps) + 1, added = a, removed = r\<rparr>]
      else comps @ [\<lparr>change.count = 1, added = a, removed = r\<rparr>])"

text \<open>The \<open>while\<close> loop of \<open>extractCommon\<close>: its state is \<open>newPos\<close>, \<open>oldPos\<close> and
  \<open>commonCount\<close>.\<close>

function commonLoop :: "'a list \<Rightarrow> 'a list \<Rightarrow> int \<Rightarrow> int \<Rightarrow> nat \<Rightarrow> int \<times> int \<times> nat" where
  "commonLoop newString oldString np opos commonCount =
     (if np + 1 < int (length newString) \<and> opos + 1 < int (length oldString)
         \<and> charAt newString (np + 1) = charAt oldString (opos + 1)
      then commonLoop newString oldString (np + 1) (opos + 1) (commonCount + 1)
      else (np, opos, commonCount))"
  by pat_completeness auto
termination
  by (relation "measure (\<lambda>(n, o', np, opos, c). nat (int (length n) - np))") auto

text \<open>\<open>extractCommon\<close> updates the path it is given and returns \<open>oldPos\<close>; here it
  returns both.\<close>

definition extractCommon :: "path \<Rightarrow> 'a list \<Rightarrow> 'a list \<Rightarrow> int \<Rightarrow> path \<times> int" where
  "extractCommon basePath newString oldString diagonalPath =
     (case commonLoop newString oldString (newPos basePath) (newPos basePath - diagonalPath) 0 of
        (np, opos, commonCount) \<Rightarrow>
          (\<lparr>newPos = np,
            components =
              (if commonCount \<noteq> 0
               then components basePath @ [\<lparr>change.count = commonCount, added = False, removed = False\<rparr>]
               else components basePath)\<rparr>,
           opos))"

text \<open>The loop of \<open>buildValues\<close>, from component \<open>componentPos\<close> on, with the positions
  \<open>newPos\<close> and \<open>oldPos\<close> reached so far.\<close>

fun buildLoop :: "change list \<Rightarrow> 'a list \<Rightarrow> 'a list \<Rightarrow> nat \<Rightarrow> nat \<Rightarrow> 'a component list" where
  "buildLoop [] newString oldString np opos = []"
| "buildLoop (c # cs) newString oldString np opos =
     (if \<not> change.removed c
      then \<lparr>count = Some (change.count c), added = change.added c, removed = change.removed c,
             value = slice newString np (np + change.count c)\<rparr>
           # buildLoop cs newString oldString (np + change.count c)
               (if \<not> change.added c then opos + change.count c else opos)
      else \<lparr>count = Some (change.count c), added = change.added c, removed = change.removed c,
             value = slice oldString opos (opos + change.count c)\<rparr>
           # buildLoop cs newString oldString np (opos + change.count c))"

definition buildValues :: "change list \<Rightarrow> 'a list \<Rightarrow> 'a list \<Rightarrow> 'a component list" where
  "buildValues comps newString oldString = buildLoop comps newString oldString 0 0"

subsection \<open>The search\<close>

definition canAdd :: "path option \<Rightarrow> int \<Rightarrow> bool" where
  "canAdd addPath newLen = (case addPath of None \<Rightarrow> False | Some a \<Rightarrow> newPos a + 1 < newLen)"

definition canRemove :: "path option \<Rightarrow> int \<Rightarrow> int \<Rightarrow> bool" where
  "canRemove removePath opos oldLen =
     (case removePath of None \<Rightarrow> False | Some r \<Rightarrow> 0 \<le> opos \<and> opos < oldLen)"

text \<open>The test \<open>!canAdd || (canRemove && addPath.newPos < removePath.newPos)\<close>.
  The comparison is only evaluated when both paths exist.\<close>

definition fromRemove :: "path option \<Rightarrow> path option \<Rightarrow> bool \<Rightarrow> bool \<Rightarrow> bool" where
  "fromRemove addPath removePath cAdd cRemove =
     (\<not> cAdd \<or> (cRemove \<and>
        (case (addPath, removePath) of
           (Some a, Some r) \<Rightarrow> newPos a < newPos r
         | _ \<Rightarrow> False)))"

text \<open>The path the search branches from, with the edit pushed; \<open>None\<close> where the script
  would read a property of \<open>undefined\<close>.\<close>

definition basePathOf :: "path option \<Rightarrow> path option \<Rightarrow> bool \<Rightarrow> bool \<Rightarrow> path option" where
  "basePathOf addPath removePath cAdd cRemove =
     (if fromRemove addPath removePath cAdd cRemove
      then (case removePath of
              None \<Rightarrow> None
            | Some r \<Rightarrow>
                Some ((clonePath r)\<lparr>components := pushComponent (components (clonePath r)) False True\<rparr>))
      else (case addPath of
              None \<Rightarrow> None
            | Some a \<Rightarrow>
                Some (a\<lparr>newPos := newPos a + 1,
                        components := pushComponent (components a) True False\<rparr>)))"

text \<open>The \<open>for\<close> loop of \<open>execEditLength\<close>, from diagonal \<open>diagonalPath\<close> on.\<close>

function diagonalLoop ::
  "'a list \<Rightarrow> 'a list \<Rightarrow> int \<Rightarrow> int \<Rightarrow> (int \<Rightarrow> path option) \<Rightarrow> 'a outcome" where
  "diagonalLoop newString oldString editLength diagonalPath bestPath =
     (if diagonalPath \<le> editLength then
        (let newLen = int (length newString);
             oldLen = int (length oldString);
             addPath = bestPath (diagonalPath - 1);
             removePath = bestPath (diagonalPath + 1);
             opos = (case removePath of Some r \<Rightarrow> newPos r | None \<Rightarrow> 0) - diagonalPath;
             bestPath1 = (if addPath \<noteq> None then bestPath(diagonalPath - 1 := None) else bestPath);
             cAdd = canAdd addPath newLen;
             cRemove = canRemove removePath opos oldLen
         in if \<not> cAdd \<and> \<not> cRemove
            then diagonalLoop newString oldString editLength (diagonalPath + 2)
                   (bestPath1(diagonalPath := None))
            else (case basePathOf addPath removePath cAdd cRemove of
                    None \<Rightarrow> Throw
                  | Some basePath \<Rightarrow>
                      (case extractCommon basePath newString oldString diagonalPath of
                         (basePath', opos') \<Rightarrow>
                           if newPos basePath' + 1 \<ge> newLen \<and> opos' + 1 \<ge> oldLen
                           then Return (buildValues (components basePath') newString oldString)
                           else diagonalLoop newString oldString editLength (diagonalPath + 2)
                                  (bestPath1(diagonalPath \<mapsto> basePath')))))
      else Next bestPath)"
  by pat_completeness auto
termination
  by (relation "measure (\<lambda>(n, o', e, d, b). nat (e - d + 2))") auto

definition execEditLength ::
  "'a list \<Rightarrow> 'a list \<Rightarrow> int \<Rightarrow> (int \<Rightarrow> path option) \<Rightarrow> 'a outcome" where
  "execEditLength newString oldString editLength bestPath =
     diagonalLoop newString oldString editLength (-1 * editLength) bestPath"

text \<open>The \<open>while (editLength <= maxEditLength)\<close> loop; a pass that does not return
  increments \<open>editLength\<close>.\<close>

function editLoop ::
  "'a list \<Rightarrow> 'a list \<Rightarrow> int \<Rightarrow> (int \<Rightarrow> path option) \<Rightarrow> failure + 'a component list" where
  "editLoop newString oldString editLength bestPath =
     (if editLength \<le> int (length newString) + int (length oldString) then
        (case execEditLength newString oldString editLength bestPath of
           Return ret \<Rightarrow> Inr ret
         | Throw \<Rightarrow> Inl TypeError
         | Next bestPath' \<Rightarrow> editLoop newString oldString (editLength + 1) bestPath')
      else Inl NoResult)"
  by pat_completeness auto
termination
  by (relation "measure (\<lambda>(n, o', e, b). nat (int (length n) + int (length o') + 1 - e))") auto

definition diffChars :: "'a list \<Rightarrow> 'a list \<Rightarrow> failure + 'a component list" where
  "diffChars oldString newString =
     (if newString = oldString
      then Inr [\<lparr>count = None, added = False, removed = False, value = newString\<rparr>]
      else if newString = []
      then Inr [\<lparr>count = None, added = False, removed = True, value = oldString\<rparr>]
      else if oldString = []
      then Inr [\<lparr>count = None, added = True, removed = False, value = newString\<rparr>]
      else
        (case extractCommon \<lparr>newPos = -1, components = []\<rparr> newString oldString 0 of
           (seed, opos) \<Rightarrow>
             if newPos seed + 1 \<ge> int (length newString) \<and> opos + 1 \<ge> int (length oldString)
             then Inr [\<lparr>count = None, added = False, removed = False, value = newString\<rparr>]
             else editLoop newString oldString 1 ((\<lambda>k. None)(0 \<mapsto> seed))))"

subsection \<open>Reference notions\<close>

text \<open>The insert/delete edit distance, by the usual dynamic-programming recursion.\<close>

fun editDistance :: "'a list \<Rightarrow> 'a list \<Rightarrow> nat" where
  "editDistance [] ys = length ys"
| "editDistance xs [] = length xs"
| "editDistance (x # xs) (y # ys) =
     (if x = y then editDistance xs ys
      else 1 + min (editDistance xs (y # ys)) (editDistance (x # xs) ys))"

fun commonPrefix :: "'a list \<Rightarrow> 'a list \<Rightarrow> 'a list" where
  "commonPrefix (x # xs) (y # ys) = (if x = y then x # commonPrefix xs ys else [])"
| "commonPrefix xs ys = []"

text \<open>What a list of search components consumes of the new string and of the old
  string, and how many single edits it stands for. The tests on the flags are the ones
  \<open>buildValues\<close> makes.\<close>

definition newCount :: "change list \<Rightarrow> nat" where
  "newCount cs = sum_list (map change.count (filter (\<lambda>c. \<not> change.removed c) cs))"

definition oldCount :: "change list \<Rightarrow> nat" where
  "oldCount cs =
     sum_list (map change.count (filter (\<lambda>c. change.removed c \<or> \<not> change.added c) cs))"

definition editCount :: "change list \<Rightarrow> nat" where
  "editCount cs =
     sum_list (map change.count (filter (\<lambda>c. change.added c \<or> change.removed c) cs))"

text \<open>Every common run of the list, laid over the two strings from positions \<open>i\<close> and
  \<open>j\<close>, covers equal text.\<close>

fun aligned :: "'a list \<Rightarrow> 'a list \<Rightarrow> change list \<Rightarrow> nat \<Rightarrow> nat \<Rightarrow> bool" where
  "aligned newString oldString [] i j = True"
| "aligned newString oldString (c # cs) i j =
     (if \<not> change.removed c
      then (if \<not> change.added c
            then take (change.count c) (drop i newString) = take (change.count c) (drop j oldString)
                 \<and> aligned newString oldString cs (i + change.count c) (j + change.count c)
            else aligned newString oldString cs (i + change.count c) j)
      else aligned newString oldString cs i (j + change.count c))"

text \<open>A valid edit script from the old string to the new one: it consumes both strings
  exactly and its common runs cover equal text.\<close>

definition validScript :: "'a list \<Rightarrow> 'a list \<Rightarrow> change list \<Rightarrow> bool" where
  "validScript oldString newString cs \<longleftrightarrow>
     newCount cs = length newString \<and> oldCount cs = length oldString
     \<and> aligned newString oldString cs 0 0"

definition kindOf :: "change \<Rightarrow> bool \<times> bool" where
  "kindOf c = (change.added c, change.removed c)"

definition wellFormed :: "change list \<Rightarrow> bool" where
  "wellFormed cs \<longleftrightarrow>
     list_all (\<lambda>c. 1 \<le> change.count c \<and> \<not> (change.added c \<and> change.removed c)) cs
     \<and> distinct_adj (map kindOf cs)"

definition headIsPrefix :: "'a list \<Rightarrow> 'a list \<Rightarrow> change list \<Rightarrow> bool" where
  "headIsPrefix newString oldString cs \<longleftrightarrow>
     (commonPrefix newString oldString = [] \<or>
      (cs \<noteq> [] \<and>
       hd cs = \<lparr>change.count = length (commonPrefix newString oldString),
                added = False, removed = False\<rparr>))"

subsection \<open>Invariants of the search\<close>

text \<open>A path of \<open>d\<close> edits on diagonal \<open>k\<close>: it lies inside the edit graph and its
  components are a valid script for the prefixes it has consumed.\<close>

definition pathInv :: "'a list \<Rightarrow> 'a list \<Rightarrow> int \<Rightarrow> int \<Rightarrow> path \<Rightarrow> bool" where
  "pathInv newString oldString d k p \<longleftrightarrow>
     - 1 \<le> newPos p \<and> - 1 \<le> newPos p - k
     \<and> newPos p + 1 \<le> int (length newString) \<and> newPos p - k + 1 \<le> int (length oldString)
     \<and> int (newCount (components p)) = newPos p + 1
     \<and> int (oldCount (components p)) = newPos p - k + 1
     \<and> aligned newString oldString (components p) 0 0
     \<and> int (editCount (components p)) = d
     \<and> \<bar>k\<bar> \<le> d \<and> even (d - k)"

definition shapeInv :: "'a list \<Rightarrow> 'a list \<Rightarrow> change list \<Rightarrow> bool" where
  "shapeInv newString oldString cs \<longleftrightarrow> wellFormed cs \<and> headIsPrefix newString oldString cs"

text \<open>The shape of a component list right after \<open>pushComponent\<close>: it ends in an edit.\<close>

definition preShape :: "'a list \<Rightarrow> 'a list \<Rightarrow> change list \<Rightarrow> bool" where
  "preShape newString oldString cs \<longleftrightarrow>
     shapeInv newString oldString cs \<and> cs \<noteq> []
     \<and> (change.added (last cs) \<or> change.removed (last cs))"

text \<open>The edit distance between what a component list has left of the two strings.\<close>

definition rest :: "'a list \<Rightarrow> 'a list \<Rightarrow> change list \<Rightarrow> nat" where
  "rest newString oldString cs =
     editDistance (drop (newCount cs) newString) (drop (oldCount cs) oldString)"

text \<open>A path kept in the table has not consumed both strings and cannot be extended by
  a common character.\<close>

definition stuck :: "'a list \<Rightarrow> 'a list \<Rightarrow> change list \<Rightarrow> bool" where
  "stuck newString oldString cs \<longleftrightarrow>
     \<not> (newCount cs \<ge> length newString \<and> oldCount cs \<ge> length oldString)
     \<and> (newCount cs \<ge> length newString \<or> oldCount cs \<ge> length oldString
        \<or> newString ! newCount cs \<noteq> oldString ! oldCount cs)"

definition storedInv :: "'a list \<Rightarrow> 'a list \<Rightarrow> int \<Rightarrow> int \<Rightarrow> path \<Rightarrow> bool" where
  "storedInv newString oldString d k p \<longleftrightarrow>
     pathInv newString oldString d k p
     \<and> shapeInv newString oldString (components p)
     \<and> stuck newString oldString (components p)"

text \<open>Some path of the current pass lies on a shortest script.\<close>

definition newWitness :: "'a list \<Rightarrow> 'a list \<Rightarrow> int \<Rightarrow> (int \<Rightarrow> path option) \<Rightarrow> bool" where
  "newWitness newString oldString e bp \<longleftrightarrow>
     (\<exists>k p. bp k = Some p \<and> even (k - e)
        \<and> e + int (rest newString oldString (components p))
            \<le> int (editDistance newString oldString))"

text \<open>Some path of the previous pass lies on a shortest script that goes on with an edit
  to a diagonal the current pass has not visited yet.\<close>

definition oldWitness ::
  "'a list \<Rightarrow> 'a list \<Rightarrow> int \<Rightarrow> int \<Rightarrow> (int \<Rightarrow> path option) \<Rightarrow> bool" where
  "oldWitness newString oldString e diag bp \<longleftrightarrow>
     (\<exists>k p. bp k = Some p \<and> odd (k - e)
        \<and> e - 1 + int (rest newString oldString (components p))
            \<le> int (editDistance newString oldString)
        \<and> ((diag - 1 \<le> k \<and> newCount (components p) < length newString
             \<and> editDistance (drop (Suc (newCount (components p))) newString)
                  (drop (oldCount (components p)) oldString) + 1
                = rest newString oldString (components p))
           \<or> (diag + 1 \<le> k \<and> oldCount (components p) < length oldString
             \<and> editDistance (drop (newCount (components p)) newString)
                  (drop (Suc (oldCount (components p))) oldString) + 1
                = rest newString oldString (components p))))"

text \<open>The table of best paths when pass \<open>e\<close> is about to visit diagonal \<open>diag\<close>.\<close>

definition tableInv ::
  "'a list \<Rightarrow> 'a list \<Rightarrow> int \<Rightarrow> int \<Rightarrow> (int \<Rightarrow> path option) \<Rightarrow> bool" where
  "tableInv newString oldString e diag bp \<longleftrightarrow>
     (\<forall>k p. bp k = Some p \<longrightarrow>
        (even (k - e) \<and> k < diag \<and> storedInv newString oldString e k p)
        \<or> (odd (k - e) \<and> diag - 1 \<le> k \<and> storedInv newString oldString (e - 1) k p))
     \<and> (newWitness newString oldString e bp \<or> oldWitness newString oldString e diag bp)"

text \<open>What the search returns: the values built from a valid, well-shaped script of
  minimal cost.\<close>

definition searchResult :: "'a list \<Rightarrow> 'a list \<Rightarrow> 'a component list \<Rightarrow> bool" where
  "searchResult newString oldString script \<longleftrightarrow>
     (\<exists>cs. script = buildValues cs newString oldString
        \<and> validScript oldString newString cs
        \<and> shapeInv newString oldString cs
        \<and> editCount cs = editDistance newString oldString)"

subsection \<open>Reading a returned script\<close>

text \<open>The added and removed components of a script.\<close>

definition editComponents :: "'a component list \<Rightarrow> 'a component list" where
  "editComponents script = filter (\<lambda>c. component.added c \<or> component.removed c) script"

text \<open>The sum of the \<open>count\<close> fields of a list of components; there is none when a
  component has no \<open>count\<close>.\<close>

fun countSum :: "'a component list \<Rightarrow> nat option" where
  "countSum [] = Some 0"
| "countSum (c # cs) =
     (case (component.count c, countSum cs) of
        (Some a, Some b) \<Rightarrow> Some (a + b)
      | _ \<Rightarrow> None)"

text \<open>The values of the components that are not removed, and of those that are not
  added, concatenated in order.\<close>

definition newText :: "'a component list \<Rightarrow> 'a list" where
  "newText script = concat (map component.value (filter (\<lambda>c. \<not> component.removed c) script))"

definition oldText :: "'a component list \<Rightarrow> 'a list" where
  "oldText script = concat (map component.value (filter (\<lambda>c. \<not> component.added c) script))"

text \<open>The pair of flags of a component, and the two properties of a single component
  that the data model asks for.\<close>

definition flagsOf :: "'a component \<Rightarrow> bool \<times> bool" where
  "flagsOf c = (component.added c, component.removed c)"

definition hasCount :: "'a component \<Rightarrow> bool" where
  "hasCount c = (case component.count c of Some m \<Rightarrow> 1 \<le> m | None \<Rightarrow> False)"

definition oneFlag :: "'a component \<Rightarrow> bool" where
  "oneFlag c = (\<not> (component.added c \<and> component.removed c))"

subsection \<open>The sequence of passes\<close>

text \<open>The table \<open>bestPath\<close> after seeding, with which the first pass starts.\<close>

definition seedTable :: "'a list \<Rightarrow> 'a list \<Rightarrow> int \<Rightarrow> path option" where
  "seedTable newString oldString =
     (\<lambda>k. None)(0 \<mapsto> fst (extractCommon \<lparr>newPos = - 1, components = []\<rparr> newString oldString 0))"

text \<open>The table with which the pass of edit length \<open>k + 1\<close> starts, when the passes of
  edit lengths \<open>1\<close> to \<open>k\<close>, run from table \<open>t\<close>, have all ended without a result.\<close>

fun tableAt ::
  "'a list \<Rightarrow> 'a list \<Rightarrow> (int \<Rightarrow> path option) \<Rightarrow> nat \<Rightarrow> (int \<Rightarrow> path option) option" where
  "tableAt newString oldString t 0 = Some t"
| "tableAt newString oldString t (Suc k) =
     (case tableAt newString oldString t k of
        None \<Rightarrow> None
      | Some bp \<Rightarrow>
          (case execEditLength newString oldString (int k + 1) bp of
             Next bp' \<Rightarrow> Some bp'
           | _ \<Rightarrow> None))"

text \<open>The same table for a call of \<open>diffChars\<close>, empty when an earlier pass has returned.\<close>

definition passTable :: "'a list \<Rightarrow> 'a list \<Rightarrow> nat \<Rightarrow> int \<Rightarrow> path option" where
  "passTable newString oldString k =
     (case tableAt newString oldString (seedTable newString oldString) k of
        None \<Rightarrow> (\<lambda>d. None)
      | Some bp \<Rightarrow> bp)"

text \<open>The script a pass has returned, if it has.\<close>

definition returned :: "'a outcome \<Rightarrow> 'a component list option" where
  "returned out = (case out of Return ret \<Rightarrow> Some ret | _ \<Rightarrow> None)"

subsection \<open>Edit distance\<close>

lemma editDistance_Nil2 [simp]: "editDistance xs [] = length xs"
  by (cases xs) auto

lemma editDistance_sym: "editDistance xs ys = editDistance ys xs"
  by (induction xs ys rule: editDistance.induct) auto

lemma editDistance_step_left:
  "editDistance (a # xs) ys \<le> 1 + editDistance xs ys \<and> editDistance xs ys \<le> 1 + editDistance (a # xs) ys"
proof (induction "length xs + length ys" arbitrary: xs ys a rule: less_induct)
  case less
  show ?case
  proof (cases ys)
    case Nil
    then show ?thesis by simp
  next
    case (Cons b ys')
    have IHl: "editDistance (c # xs) ys' \<le> 1 + editDistance xs ys' \<and> editDistance xs ys' \<le> 1 + editDistance (c # xs) ys'" for c
      using less.hyps [of xs ys' c] Cons by simp
    have IHr: "editDistance (b # ys') xs \<le> 1 + editDistance ys' xs \<and> editDistance ys' xs \<le> 1 + editDistance (b # ys') xs"
      using less.hyps [of ys' xs b] Cons by simp
    then have IHr': "editDistance xs (b # ys') \<le> 1 + editDistance xs ys' \<and> editDistance xs ys' \<le> 1 + editDistance xs (b # ys')"
      by (simp add: editDistance_sym)
    show ?thesis
    proof (cases "a = b")
      case True
      with Cons IHr' show ?thesis by simp
    next
      case False
      with Cons IHr' IHl [of a] show ?thesis by (simp add: min_def)
    qed
  qed
qed

lemma editDistance_Cons_left: "editDistance (a # xs) ys \<le> Suc (editDistance xs ys)"
  using editDistance_step_left [of a xs ys] by simp

lemma editDistance_tl_left: "editDistance xs ys \<le> Suc (editDistance (a # xs) ys)"
  using editDistance_step_left [of a xs ys] by simp

lemma editDistance_Cons_right: "editDistance xs (b # ys) \<le> Suc (editDistance xs ys)"
  using editDistance_Cons_left [of b ys xs] by (simp add: editDistance_sym)

lemma editDistance_tl_right: "editDistance xs ys \<le> Suc (editDistance xs (b # ys))"
  using editDistance_tl_left [of ys xs b] by (simp add: editDistance_sym)

lemma editDistance_diagonal: "editDistance xs ys \<le> editDistance (a # xs) (b # ys)"
  using editDistance_tl_left [of xs ys a] editDistance_tl_right [of xs ys b]
  by (simp add: min_def)

lemma editDistance_le_sum: "editDistance xs ys \<le> length xs + length ys"
  by (induction xs ys rule: editDistance.induct) auto

lemma editDistance_zero: "editDistance xs ys = 0 \<Longrightarrow> xs = ys"
  by (induction xs ys rule: editDistance.induct) (auto split: if_splits)

lemma editDistance_refl [simp]: "editDistance xs xs = 0"
  by (induction xs) auto

lemma editDistance_commonPrefix:
  "editDistance (drop (length (commonPrefix xs ys)) xs) (drop (length (commonPrefix xs ys)) ys)
     = editDistance xs ys"
  by (induction xs ys rule: commonPrefix.induct) auto

lemma commonPrefix_take:
  "take (length (commonPrefix xs ys)) xs = commonPrefix xs ys
   \<and> take (length (commonPrefix xs ys)) ys = commonPrefix xs ys"
  by (induction xs ys rule: commonPrefix.induct) auto

lemma commonPrefix_length_le:
  "length (commonPrefix xs ys) \<le> length xs \<and> length (commonPrefix xs ys) \<le> length ys"
  by (induction xs ys rule: commonPrefix.induct) auto

lemma commonPrefix_maximal:
  "length (commonPrefix xs ys) < length xs \<Longrightarrow> length (commonPrefix xs ys) < length ys \<Longrightarrow>
   xs ! length (commonPrefix xs ys) \<noteq> ys ! length (commonPrefix xs ys)"
  by (induction xs ys rule: commonPrefix.induct) (auto split: if_splits)

lemma editDistance_drop_diagonal:
  "x + t \<le> length xs \<Longrightarrow> y + t \<le> length ys \<Longrightarrow>
   editDistance (drop (x + t) xs) (drop (y + t) ys) \<le> editDistance (drop x xs) (drop y ys)"
proof (induction t)
  case 0
  then show ?case by simp
next
  case (Suc t)
  have a: "drop (x + t) xs = xs ! (x + t) # drop (x + Suc t) xs"
    using Suc.prems by (simp add: Cons_nth_drop_Suc)
  have b: "drop (y + t) ys = ys ! (y + t) # drop (y + Suc t) ys"
    using Suc.prems by (simp add: Cons_nth_drop_Suc)
  have "editDistance (drop (x + Suc t) xs) (drop (y + Suc t) ys) \<le> editDistance (drop (x + t) xs) (drop (y + t) ys)"
    unfolding a b by (rule editDistance_diagonal)
  with Suc show ?case by simp
qed

subsection \<open>Counting components\<close>

lemma newCount_simps [simp]:
  "newCount [] = 0"
  "newCount (cs @ ds) = newCount cs + newCount ds"
  "newCount (c # cs) = (if change.removed c then 0 else change.count c) + newCount cs"
  by (simp_all add: newCount_def)

lemma oldCount_simps [simp]:
  "oldCount [] = 0"
  "oldCount (cs @ ds) = oldCount cs + oldCount ds"
  "oldCount (c # cs) =
     (if change.removed c \<or> \<not> change.added c then change.count c else 0) + oldCount cs"
  by (simp_all add: oldCount_def)

lemma editCount_simps [simp]:
  "editCount [] = 0"
  "editCount (cs @ ds) = editCount cs + editCount ds"
  "editCount (c # cs) =
     (if change.added c \<or> change.removed c then change.count c else 0) + editCount cs"
  by (simp_all add: editCount_def)

lemma aligned_append:
  "aligned n o' (cs @ ds) i j
     \<longleftrightarrow> aligned n o' cs i j \<and> aligned n o' ds (i + newCount cs) (j + oldCount cs)"
  by (induction cs arbitrary: i j) (auto simp: add.assoc)

subsection \<open>pushComponent\<close>

lemma pushComponent_Nil:
  "pushComponent [] a r = [\<lparr>change.count = 1, added = a, removed = r\<rparr>]"
  by (simp add: pushComponent_def)

lemma pushComponent_snoc:
  "pushComponent (cs @ [l]) a r =
     (if change.added l = a \<and> change.removed l = r
      then cs @ [\<lparr>change.count = change.count l + 1, added = a, removed = r\<rparr>]
      else cs @ [l, \<lparr>change.count = 1, added = a, removed = r\<rparr>])"
  by (simp add: pushComponent_def)

lemma pushComponent_newCount:
  "newCount (pushComponent cs a r) = newCount cs + (if r then 0 else 1)"
  by (cases cs rule: rev_cases) (auto simp: pushComponent_Nil pushComponent_snoc)

lemma pushComponent_oldCount:
  "oldCount (pushComponent cs a r) = oldCount cs + (if r \<or> \<not> a then 1 else 0)"
  by (cases cs rule: rev_cases) (auto simp: pushComponent_Nil pushComponent_snoc)

lemma pushComponent_editCount:
  "editCount (pushComponent cs a r) = editCount cs + (if a \<or> r then 1 else 0)"
  by (cases cs rule: rev_cases) (auto simp: pushComponent_Nil pushComponent_snoc)

lemma pushComponent_aligned:
  "a \<or> r \<Longrightarrow> aligned n o' (pushComponent cs a r) 0 0 \<longleftrightarrow> aligned n o' cs 0 0"
  by (cases cs rule: rev_cases) (auto simp: pushComponent_Nil pushComponent_snoc aligned_append)

lemma pushComponent_last:
  "pushComponent cs a r \<noteq> []
   \<and> change.added (last (pushComponent cs a r)) = a
   \<and> change.removed (last (pushComponent cs a r)) = r"
  by (cases cs rule: rev_cases) (auto simp: pushComponent_Nil pushComponent_snoc)

lemma pushComponent_wellFormed:
  "wellFormed cs \<Longrightarrow> \<not> (a \<and> r) \<Longrightarrow> wellFormed (pushComponent cs a r)"
  by (cases cs rule: rev_cases)
    (auto simp: pushComponent_Nil pushComponent_snoc wellFormed_def distinct_adj_append_iff kindOf_def)

lemma pushComponent_hd:
  "cs \<noteq> [] \<Longrightarrow> \<not> change.added (hd cs) \<Longrightarrow> \<not> change.removed (hd cs) \<Longrightarrow> a \<or> r \<Longrightarrow>
   hd (pushComponent cs a r) = hd cs"
  by (cases cs rule: rev_cases) (auto simp: pushComponent_snoc hd_append)

lemma pushComponent_headIsPrefix:
  "headIsPrefix n o' cs \<Longrightarrow> cs \<noteq> [] \<or> commonPrefix n o' = [] \<Longrightarrow> a \<or> r \<Longrightarrow>
   headIsPrefix n o' (pushComponent cs a r)"
  unfolding headIsPrefix_def
  using pushComponent_hd [of cs a r] pushComponent_last [of cs a r] by auto

subsection \<open>extractCommon\<close>

declare commonLoop.simps [simp del] diagonalLoop.simps [simp del] editLoop.simps [simp del]

lemma commonPrefix_Nil2 [simp]: "commonPrefix xs [] = []"
  by (cases xs) auto

lemma commonPrefix_drop_step:
  assumes "x < length n" "y < length o'" "n ! x = o' ! y"
  shows "commonPrefix (drop x n) (drop y o')
           = n ! x # commonPrefix (drop (Suc x) n) (drop (Suc y) o')"
proof -
  have "drop x n = n ! x # drop (Suc x) n" "drop y o' = o' ! y # drop (Suc y) o'"
    using assms(1,2) by (simp_all add: Cons_nth_drop_Suc)
  then show ?thesis using assms(3) by simp
qed

lemma commonPrefix_drop_stop:
  assumes "\<not> (x < length n \<and> y < length o' \<and> n ! x = o' ! y)"
  shows "commonPrefix (drop x n) (drop y o') = []"
proof (cases "x < length n \<and> y < length o'")
  case True
  then have "drop x n = n ! x # drop (Suc x) n" "drop y o' = o' ! y # drop (Suc y) o'"
    by (simp_all add: Cons_nth_drop_Suc)
  then show ?thesis using assms True by simp
next
  case False
  then have "drop x n = [] \<or> drop y o' = []" by auto
  then show ?thesis by auto
qed

lemma commonLoop_eq:
  "- 1 \<le> np \<Longrightarrow> - 1 \<le> opos \<Longrightarrow>
   commonLoop n o' np opos c =
     (np + int (length (commonPrefix (drop (nat (np + 1)) n) (drop (nat (opos + 1)) o'))),
      opos + int (length (commonPrefix (drop (nat (np + 1)) n) (drop (nat (opos + 1)) o'))),
      c + length (commonPrefix (drop (nat (np + 1)) n) (drop (nat (opos + 1)) o')))"
proof (induction n o' np opos c rule: commonLoop.induct)
  case (1 n o' np opos c)
  let ?x = "nat (np + 1)" and ?y = "nat (opos + 1)"
  show ?case
  proof (cases "np + 1 < int (length n) \<and> opos + 1 < int (length o')
         \<and> charAt n (np + 1) = charAt o' (opos + 1)")
    case True
    then have xy: "?x < length n" "?y < length o'" "n ! ?x = o' ! ?y"
      using "1.prems" by (auto simp: charAt_def)
    have suc: "nat (np + 1 + 1) = Suc ?x" "nat (opos + 1 + 1) = Suc ?y"
      using "1.prems" by auto
    have "commonLoop n o' np opos c = commonLoop n o' (np + 1) (opos + 1) (c + 1)"
      using True by (subst commonLoop.simps) simp
    also have "\<dots> = (np + 1 + int (length (commonPrefix (drop (Suc ?x) n) (drop (Suc ?y) o'))),
        opos + 1 + int (length (commonPrefix (drop (Suc ?x) n) (drop (Suc ?y) o'))),
        c + 1 + length (commonPrefix (drop (Suc ?x) n) (drop (Suc ?y) o')))"
      using "1.IH" [OF True] "1.prems" suc by simp
    finally show ?thesis
      by (simp add: commonPrefix_drop_step [OF xy])
  next
    case False
    then have "\<not> (?x < length n \<and> ?y < length o' \<and> n ! ?x = o' ! ?y)"
      using "1.prems" by (auto simp: charAt_def)
    then have "commonPrefix (drop ?x n) (drop ?y o') = []"
      by (rule commonPrefix_drop_stop)
    moreover have "commonLoop n o' np opos c = (np, opos, c)"
      using False by (subst commonLoop.simps) auto
    ultimately show ?thesis by simp
  qed
qed

lemma extractCommon_eq:
  assumes "- 1 \<le> newPos base" "- 1 \<le> newPos base - k"
  shows "extractCommon base n o' k =
     (\<lparr>newPos = newPos base
          + int (length (commonPrefix (drop (nat (newPos base + 1)) n)
                           (drop (nat (newPos base - k + 1)) o'))),
       components =
         (if commonPrefix (drop (nat (newPos base + 1)) n) (drop (nat (newPos base - k + 1)) o') \<noteq> []
          then components base @
               [\<lparr>change.count = length (commonPrefix (drop (nat (newPos base + 1)) n)
                                         (drop (nat (newPos base - k + 1)) o')),
                 added = False, removed = False\<rparr>]
          else components base)\<rparr>,
      newPos base - k
        + int (length (commonPrefix (drop (nat (newPos base + 1)) n)
                         (drop (nat (newPos base - k + 1)) o'))))"
  using assms by (simp add: extractCommon_def commonLoop_eq)

text \<open>The effect of \<open>extractCommon\<close> on a path inside the edit graph, in terms of the
  length \<open>s\<close> of the common run it finds.\<close>

lemma extractCommon_cases:
  assumes inv: "pathInv n o' d k base"
    and ex: "extractCommon base n o' k = (base', opos')"
  obtains s where
    "s = length (commonPrefix (drop (newCount (components base)) n)
                   (drop (oldCount (components base)) o'))"
    "newPos base' = newPos base + int s"
    "opos' = newPos base' - k"
    "components base' =
       (if s \<noteq> 0 then components base @ [\<lparr>change.count = s, added = False, removed = False\<rparr>]
        else components base)"
proof -
  have b: "- 1 \<le> newPos base" "- 1 \<le> newPos base - k"
    using inv by (simp_all add: pathInv_def)
  have x: "nat (newPos base + 1) = newCount (components base)"
    and y: "nat (newPos base - k + 1) = oldCount (components base)"
    using inv by (auto simp: pathInv_def)
  show thesis
    using ex that [of "length (commonPrefix (drop (newCount (components base)) n)
                   (drop (oldCount (components base)) o'))"]
    unfolding extractCommon_eq [OF b] x y by auto
qed

lemma extractCommon_pathInv:
  assumes inv: "pathInv n o' d k base"
    and ex: "extractCommon base n o' k = (base', opos')"
  shows "pathInv n o' d k base'"
proof -
  let ?xs = "drop (newCount (components base)) n" and ?ys = "drop (oldCount (components base)) o'"
  from inv ex obtain s where s: "s = length (commonPrefix ?xs ?ys)"
    and np: "newPos base' = newPos base + int s"
    and cs: "components base' =
       (if s \<noteq> 0 then components base @ [\<lparr>change.count = s, added = False, removed = False\<rparr>]
        else components base)"
    by (rule extractCommon_cases)
  have le: "s \<le> length ?xs" "s \<le> length ?ys"
    using commonPrefix_length_le [of ?xs ?ys] s by simp_all
  have tk: "take s ?xs = take s ?ys"
    using commonPrefix_take [of ?xs ?ys] s by simp
  have nc: "newCount (components base') = newCount (components base) + s"
    and oc: "oldCount (components base') = oldCount (components base) + s"
    and ec: "editCount (components base') = editCount (components base)"
    and al: "aligned n o' (components base') 0 0 \<longleftrightarrow> aligned n o' (components base) 0 0"
    using cs tk by (auto simp: aligned_append)
  show ?thesis
    using inv le unfolding pathInv_def nc oc ec al np by auto
qed

lemma extractCommon_rest:
  assumes inv: "pathInv n o' d k base"
    and ex: "extractCommon base n o' k = (base', opos')"
  shows "rest n o' (components base') = rest n o' (components base)"
proof -
  let ?xs = "drop (newCount (components base)) n" and ?ys = "drop (oldCount (components base)) o'"
  from inv ex obtain s where s: "s = length (commonPrefix ?xs ?ys)"
    and cs: "components base' =
       (if s \<noteq> 0 then components base @ [\<lparr>change.count = s, added = False, removed = False\<rparr>]
        else components base)"
    by (rule extractCommon_cases)
  have nc: "newCount (components base') = s + newCount (components base)"
    and oc: "oldCount (components base') = s + oldCount (components base)"
    using cs by auto
  show ?thesis
    unfolding rest_def nc oc using editDistance_commonPrefix [of ?xs ?ys] s
    by (simp add: add.commute)
qed

lemma extractCommon_maximal:
  assumes inv: "pathInv n o' d k base"
    and ex: "extractCommon base n o' k = (base', opos')"
  shows "newCount (components base') \<ge> length n \<or> oldCount (components base') \<ge> length o'
         \<or> n ! newCount (components base') \<noteq> o' ! oldCount (components base')"
proof -
  let ?x = "newCount (components base)" and ?y = "oldCount (components base)"
  let ?xs = "drop ?x n" and ?ys = "drop ?y o'"
  from inv ex obtain s where s: "s = length (commonPrefix ?xs ?ys)"
    and cs: "components base' =
       (if s \<noteq> 0 then components base @ [\<lparr>change.count = s, added = False, removed = False\<rparr>]
        else components base)"
    by (rule extractCommon_cases)
  have nc: "newCount (components base') = ?x + s"
    and oc: "oldCount (components base') = ?y + s"
    using cs by auto
  show ?thesis
  proof (cases "?x + s < length n \<and> ?y + s < length o'")
    case True
    then have "s < length ?xs" "s < length ?ys" by auto
    then have "?xs ! s \<noteq> ?ys ! s"
      using commonPrefix_maximal [of ?xs ?ys] s by simp
    then show ?thesis using True nc oc by simp
  next
    case False
    then show ?thesis using nc oc by auto
  qed
qed

lemma extractCommon_editCount:
  assumes inv: "pathInv n o' d k base"
    and ex: "extractCommon base n o' k = (base', opos')"
  shows "editCount (components base') = editCount (components base)"
    and "opos' = newPos base' - k"
    and "newPos base \<le> newPos base'"
proof -
  from inv ex obtain s where "newPos base' = newPos base + int s" "opos' = newPos base' - k"
    and cs: "components base' =
       (if s \<noteq> 0 then components base @ [\<lparr>change.count = s, added = False, removed = False\<rparr>]
        else components base)"
    by (rule extractCommon_cases)
  then show "editCount (components base') = editCount (components base)"
    and "opos' = newPos base' - k" and "newPos base \<le> newPos base'"
    by auto
qed

lemma extractCommon_shape:
  assumes inv: "pathInv n o' d k base"
    and ex: "extractCommon base n o' k = (base', opos')"
    and pre: "preShape n o' (components base)"
  shows "shapeInv n o' (components base')"
proof -
  from inv ex obtain s where
    cs: "components base' =
       (if s \<noteq> 0 then components base @ [\<lparr>change.count = s, added = False, removed = False\<rparr>]
        else components base)"
    by (rule extractCommon_cases)
  show ?thesis
  proof (cases "s = 0")
    case True
    then show ?thesis using cs pre by (simp add: preShape_def)
  next
    case False
    have "wellFormed (components base @ [\<lparr>change.count = s, added = False, removed = False\<rparr>])"
      using pre False
      by (auto simp: preShape_def shapeInv_def wellFormed_def distinct_adj_append_iff kindOf_def
          last_map)
    moreover have "headIsPrefix n o' (components base @ [\<lparr>change.count = s, added = False, removed = False\<rparr>])"
      using pre by (auto simp: preShape_def shapeInv_def headIsPrefix_def)
    ultimately show ?thesis using cs False by (simp add: shapeInv_def)
  qed
qed

subsection \<open>Scripts and the edit distance\<close>

lemma editDistance_drop_left: "editDistance xs ys \<le> c + editDistance (drop c xs) ys"
proof (induction c arbitrary: xs)
  case 0
  then show ?case by simp
next
  case (Suc c)
  show ?case
  proof (cases xs)
    case Nil
    then show ?thesis by simp
  next
    case (Cons a xs')
    have "editDistance (a # xs') ys \<le> Suc (editDistance xs' ys)"
      by (rule editDistance_Cons_left)
    also have "\<dots> \<le> Suc (c + editDistance (drop c xs') ys)"
      using Suc.IH [of xs'] by simp
    finally show ?thesis using Cons by simp
  qed
qed

lemma editDistance_drop_right: "editDistance xs ys \<le> c + editDistance xs (drop c ys)"
  using editDistance_drop_left [of ys xs c] by (simp add: editDistance_sym)

lemma editDistance_drop_common:
  "take c xs = take c ys \<Longrightarrow> c \<le> length xs \<Longrightarrow> c \<le> length ys \<Longrightarrow>
   editDistance xs ys = editDistance (drop c xs) (drop c ys)"
proof (induction c arbitrary: xs ys)
  case 0
  then show ?case by simp
next
  case (Suc c)
  from Suc.prems obtain a xs' b ys' where xs: "xs = a # xs'" and ys: "ys = b # ys'"
    by (cases xs; cases ys) auto
  with Suc.prems have "a = b" "take c xs' = take c ys'" "c \<le> length xs'" "c \<le> length ys'"
    by simp_all
  then show ?case using Suc.IH [of xs' ys'] xs ys by simp
qed

lemma script_lower_bound:
  "aligned n o' cs i j \<Longrightarrow> i + newCount cs \<le> length n \<Longrightarrow> j + oldCount cs \<le> length o' \<Longrightarrow>
   editDistance (drop i n) (drop j o')
     \<le> editCount cs + editDistance (drop (i + newCount cs) n) (drop (j + oldCount cs) o')"
proof (induction cs arbitrary: i j)
  case Nil
  then show ?case by simp
next
  case (Cons c cs)
  let ?c = "change.count c"
  show ?case
  proof (cases "change.removed c")
    case True
    have "editDistance (drop i n) (drop j o') \<le> ?c + editDistance (drop i n) (drop ?c (drop j o'))"
      by (rule editDistance_drop_right)
    also have "editDistance (drop i n) (drop ?c (drop j o'))
        \<le> editCount cs + editDistance (drop (i + newCount cs) n) (drop (j + ?c + oldCount cs) o')"
      using Cons.IH [of i "j + ?c"] Cons.prems True by (simp add: add.commute add.left_commute)
    finally show ?thesis using True by (simp add: add.assoc)
  next
    case False
    note nr = this
    show ?thesis
    proof (cases "change.added c")
      case True
      have "editDistance (drop i n) (drop j o') \<le> ?c + editDistance (drop ?c (drop i n)) (drop j o')"
        by (rule editDistance_drop_left)
      also have "editDistance (drop ?c (drop i n)) (drop j o')
          \<le> editCount cs + editDistance (drop (i + ?c + newCount cs) n) (drop (j + oldCount cs) o')"
        using Cons.IH [of "i + ?c" j] Cons.prems True nr by (simp add: add.commute add.left_commute)
      finally show ?thesis using True nr by (simp add: add.assoc)
    next
      case False
      have tk: "take ?c (drop i n) = take ?c (drop j o')"
        using Cons.prems False nr by simp
      have "editDistance (drop i n) (drop j o')
          = editDistance (drop ?c (drop i n)) (drop ?c (drop j o'))"
        using Cons.prems False nr by (intro editDistance_drop_common [OF tk]) simp_all
      also have "\<dots> \<le> editCount cs
          + editDistance (drop (i + ?c + newCount cs) n) (drop (j + ?c + oldCount cs) o')"
        using Cons.IH [of "i + ?c" "j + ?c"] Cons.prems False nr
        by (simp add: add.commute add.left_commute)
      finally show ?thesis using False nr by (simp add: add.assoc)
    qed
  qed
qed

lemma validScript_lower_bound:
  "validScript o' n cs \<Longrightarrow> editDistance n o' \<le> editCount cs"
  using script_lower_bound [of n o' cs 0 0] by (simp add: validScript_def)

lemma pathInv_lower_bound:
  "pathInv n o' d k p \<Longrightarrow> editDistance n o' \<le> editCount (components p) + rest n o' (components p)"
  using script_lower_bound [of n o' "components p" 0 0]
  by (simp add: pathInv_def rest_def)

lemma stuck_neighbour:
  assumes "stuck n o' cs" "newCount cs \<le> length n" "oldCount cs \<le> length o'"
  shows "(newCount cs < length n
           \<and> editDistance (drop (Suc (newCount cs)) n) (drop (oldCount cs) o') + 1 = rest n o' cs)
         \<or> (oldCount cs < length o'
           \<and> editDistance (drop (newCount cs) n) (drop (Suc (oldCount cs)) o') + 1 = rest n o' cs)"
proof -
  let ?x = "newCount cs" and ?y = "oldCount cs"
  have "(?x < length n \<and> ?y < length o' \<and> n ! ?x \<noteq> o' ! ?y)
      \<or> (?x < length n \<and> ?y = length o') \<or> (?x = length n \<and> ?y < length o')"
    using assms unfolding stuck_def by auto
  then consider (both) "?x < length n" "?y < length o'" "n ! ?x \<noteq> o' ! ?y"
    | (new) "?x < length n" "?y = length o'"
    | (old) "?x = length n" "?y < length o'"
    by blast
  then show ?thesis
  proof cases
    case both
    have "drop ?x n = n ! ?x # drop (Suc ?x) n" "drop ?y o' = o' ! ?y # drop (Suc ?y) o'"
      using both by (simp_all add: Cons_nth_drop_Suc)
    then show ?thesis using both
      by (auto simp: rest_def min_def)
  next
    case new
    then show ?thesis by (simp add: rest_def)
  next
    case old
    then show ?thesis by (simp add: rest_def)
  qed
qed

subsection \<open>One edit from a stored path\<close>

lemma pushComponent_preShape:
  assumes "shapeInv n o' cs" "a \<noteq> r"
  shows "preShape n o' (pushComponent cs a r)"
proof -
  have "wellFormed (pushComponent cs a r)"
    using assms by (auto simp: shapeInv_def intro: pushComponent_wellFormed)
  moreover have "headIsPrefix n o' (pushComponent cs a r)"
    using assms by (intro pushComponent_headIsPrefix) (auto simp: shapeInv_def headIsPrefix_def)
  ultimately show ?thesis
    using pushComponent_last [of cs a r] assms(2) by (auto simp: preShape_def shapeInv_def)
qed

lemma add_step:
  assumes "storedInv n o' (e - 1) (k - 1) a" "newPos a + 1 < int (length n)"
  shows "pathInv n o' e k (a\<lparr>newPos := newPos a + 1,
            components := pushComponent (components a) True False\<rparr>)"
    and "preShape n o' (pushComponent (components a) True False)"
proof -
  show "pathInv n o' e k (a\<lparr>newPos := newPos a + 1,
            components := pushComponent (components a) True False\<rparr>)"
    using assms
    by (auto simp: storedInv_def pathInv_def pushComponent_newCount pushComponent_oldCount
        pushComponent_editCount pushComponent_aligned)
  show "preShape n o' (pushComponent (components a) True False)"
    using assms by (intro pushComponent_preShape) (simp_all add: storedInv_def)
qed

lemma remove_step:
  assumes "storedInv n o' (e - 1) (k + 1) r" "0 \<le> newPos r - k" "newPos r - k < int (length o')"
  shows "pathInv n o' e k ((clonePath r)\<lparr>components :=
            pushComponent (components (clonePath r)) False True\<rparr>)"
    and "preShape n o' (pushComponent (components (clonePath r)) False True)"
proof -
  show "pathInv n o' e k ((clonePath r)\<lparr>components :=
            pushComponent (components (clonePath r)) False True\<rparr>)"
    using assms
    by (auto simp: storedInv_def pathInv_def clonePath_def pushComponent_newCount
        pushComponent_oldCount pushComponent_editCount pushComponent_aligned)
  show "preShape n o' (pushComponent (components (clonePath r)) False True)"
    using assms by (intro pushComponent_preShape) (simp_all add: storedInv_def clonePath_def)
qed

text \<open>Along a diagonal, a path that is farther ahead is no farther from the end.\<close>

lemma rest_dominates:
  assumes inv: "pathInv n o' e k base"
    and diag: "int x - int y = k"
    and le: "x \<le> newCount (components base)"
  shows "rest n o' (components base) \<le> editDistance (drop x n) (drop y o')"
proof -
  define t where "t = newCount (components base) - x"
  have nc: "newCount (components base) = x + t"
    using le by (simp add: t_def)
  have oc: "oldCount (components base) = y + t"
    using inv diag nc by (auto simp: pathInv_def)
  have "x + t \<le> length n" "y + t \<le> length o'"
    using inv nc oc by (auto simp: pathInv_def)
  then show ?thesis
    unfolding rest_def nc oc by (rule editDistance_drop_diagonal)
qed

text \<open>Which path \<open>basePathOf\<close> branches from.\<close>

lemma basePathOf_cases:
  assumes cA: "cAdd = canAdd addPath newLen" and cR: "cRemove = canRemove removePath opos oldLen"
    and some: "cAdd \<or> cRemove"
  shows "(\<exists>r. removePath = Some r \<and> cRemove
            \<and> basePathOf addPath removePath cAdd cRemove =
                Some ((clonePath r)\<lparr>components :=
                        pushComponent (components (clonePath r)) False True\<rparr>)
            \<and> (cAdd \<longrightarrow> (\<exists>a. addPath = Some a \<and> newPos a < newPos r)))
       \<or> (\<exists>a. addPath = Some a \<and> cAdd
            \<and> basePathOf addPath removePath cAdd cRemove =
                Some (a\<lparr>newPos := newPos a + 1,
                        components := pushComponent (components a) True False\<rparr>)
            \<and> (cRemove \<longrightarrow> (\<exists>r. removePath = Some r \<and> newPos r \<le> newPos a)))"
proof (cases addPath)
  case None
  then have nA: "\<not> cAdd" using cA by (simp add: canAdd_def)
  with some have cRemove by simp
  then obtain r where "removePath = Some r"
    using cR by (cases removePath) (simp_all add: canRemove_def)
  then show ?thesis
    using nA \<open>cRemove\<close> by (simp add: basePathOf_def fromRemove_def)
next
  case (Some a)
  note a = this
  show ?thesis
  proof (cases removePath)
    case None
    then have nR: "\<not> cRemove" using cR by (simp add: canRemove_def)
    with some have cAdd by simp
    then show ?thesis
      using nR a None by (simp add: basePathOf_def fromRemove_def)
  next
    case (Some r)
    show ?thesis
    proof (cases "\<not> cAdd \<or> (cRemove \<and> newPos a < newPos r)")
      case True
      then have "fromRemove addPath removePath cAdd cRemove"
        using a Some by (auto simp: fromRemove_def)
      moreover have cRemove using True some by auto
      ultimately show ?thesis
        using a Some True by (auto simp: basePathOf_def)
    next
      case False
      then have "\<not> fromRemove addPath removePath cAdd cRemove"
        using a Some by (auto simp: fromRemove_def)
      then show ?thesis
        using a Some False by (auto simp: basePathOf_def)
    qed
  qed
qed

lemma branch_base:
  assumes add: "\<And>a. bp (diag - 1) = Some a \<Longrightarrow> storedInv n o' (e - 1) (diag - 1) a"
    and rem: "\<And>r. bp (diag + 1) = Some r \<Longrightarrow> storedInv n o' (e - 1) (diag + 1) r"
    and opos: "opos = (case bp (diag + 1) of Some r \<Rightarrow> newPos r | None \<Rightarrow> 0) - diag"
    and cA: "cAdd = canAdd (bp (diag - 1)) (int (length n))"
    and cR: "cRemove = canRemove (bp (diag + 1)) opos (int (length o'))"
    and some: "cAdd \<or> cRemove"
  shows "\<exists>base. basePathOf (bp (diag - 1)) (bp (diag + 1)) cAdd cRemove = Some base
      \<and> pathInv n o' e diag base \<and> preShape n o' (components base)
      \<and> (\<forall>a. bp (diag - 1) = Some a \<longrightarrow> newCount (components a) < length n
            \<longrightarrow> Suc (newCount (components a)) \<le> newCount (components base))
      \<and> (\<forall>r. bp (diag + 1) = Some r \<longrightarrow> oldCount (components r) < length o'
            \<longrightarrow> newCount (components r) \<le> newCount (components base))"
proof -
  from basePathOf_cases [OF cA cR some]
  consider
    (remove) r where "bp (diag + 1) = Some r" "cRemove"
      "basePathOf (bp (diag - 1)) (bp (diag + 1)) cAdd cRemove =
         Some ((clonePath r)\<lparr>components := pushComponent (components (clonePath r)) False True\<rparr>)"
      "cAdd \<longrightarrow> (\<exists>a. bp (diag - 1) = Some a \<and> newPos a < newPos r)"
  | (add) a where "bp (diag - 1) = Some a" "cAdd"
      "basePathOf (bp (diag - 1)) (bp (diag + 1)) cAdd cRemove =
         Some (a\<lparr>newPos := newPos a + 1, components := pushComponent (components a) True False\<rparr>)"
      "cRemove \<longrightarrow> (\<exists>r. bp (diag + 1) = Some r \<and> newPos r \<le> newPos a)"
    by blast
  then show ?thesis
  proof cases
    case remove
    let ?base = "(clonePath r)\<lparr>components := pushComponent (components (clonePath r)) False True\<rparr>"
    have st: "storedInv n o' (e - 1) (diag + 1) r" using rem remove(1) .
    have cr: "0 \<le> newPos r - diag" "newPos r - diag < int (length o')"
      using remove(1,2) cR opos by (simp_all add: canRemove_def)
    have pi: "pathInv n o' e diag ?base" and ps: "preShape n o' (components ?base)"
      using remove_step [OF st cr] by simp_all
    have nc: "newCount (components ?base) = newCount (components r)"
      by (simp add: clonePath_def pushComponent_newCount)
    have A: "Suc (newCount (components a)) \<le> newCount (components ?base)"
      if "bp (diag - 1) = Some a" "newCount (components a) < length n" for a
    proof -
      have sa: "storedInv n o' (e - 1) (diag - 1) a" using add that(1) .
      then have "newPos a + 1 < int (length n)"
        using that(2) by (auto simp: storedInv_def pathInv_def)
      then have cAdd using cA that(1) by (simp add: canAdd_def)
      then have "newPos a < newPos r" using remove(4) that(1) by auto
      then show ?thesis
        using sa st unfolding nc by (auto simp: storedInv_def pathInv_def)
    qed
    show ?thesis
      using remove(1,3) pi ps A nc by (intro exI [of _ ?base]) auto
  next
    case add
    let ?base = "a\<lparr>newPos := newPos a + 1, components := pushComponent (components a) True False\<rparr>"
    have st: "storedInv n o' (e - 1) (diag - 1) a" using assms(1) add(1) .
    have ca: "newPos a + 1 < int (length n)"
      using add(1,2) cA by (simp add: canAdd_def)
    have pi: "pathInv n o' e diag ?base" and ps: "preShape n o' (components ?base)"
      using add_step [OF st ca] by simp_all
    have nc: "newCount (components ?base) = Suc (newCount (components a))"
      by (simp add: pushComponent_newCount)
    have B: "newCount (components r) \<le> newCount (components ?base)"
      if "bp (diag + 1) = Some r" "oldCount (components r) < length o'" for r
    proof -
      have sr: "storedInv n o' (e - 1) (diag + 1) r" using rem that(1) .
      then have "0 \<le> newPos r - diag \<and> newPos r - diag < int (length o')"
        using that(2) by (auto simp: storedInv_def pathInv_def)
      then have cRemove using cR opos that(1) by (simp add: canRemove_def)
      then have "newPos r \<le> newPos a" using add(4) that(1) by auto
      then show ?thesis
        using sr st unfolding nc by (auto simp: storedInv_def pathInv_def)
    qed
    show ?thesis
      using add(1,3) pi ps B nc by (intro exI [of _ ?base]) auto
  qed
qed

subsection \<open>The table of best paths\<close>

lemma clear_addPath:
  "(if bp j \<noteq> None then bp(j := None) else bp) = bp(j := None)"
  by auto

lemma table_old:
  "tableInv n o' e diag bp \<Longrightarrow> bp k = Some p \<Longrightarrow> odd (k - e) \<Longrightarrow>
   storedInv n o' (e - 1) k p \<and> diag - 1 \<le> k"
  by (auto simp: tableInv_def)

lemma table_new:
  "tableInv n o' e diag bp \<Longrightarrow> bp k = Some p \<Longrightarrow> even (k - e) \<Longrightarrow>
   storedInv n o' e k p \<and> k < diag"
  by (auto simp: tableInv_def)

lemma table_entries_step:
  assumes inv: "tableInv n o' e diag bp" and par: "even (diag - e)"
    and v: "\<And>q. v = Some q \<Longrightarrow> storedInv n o' e diag q"
    and k: "(bp(diag - 1 := None, diag := v)) k = Some p"
  shows "(even (k - e) \<and> k < diag + 2 \<and> storedInv n o' e k p)
         \<or> (odd (k - e) \<and> diag + 1 \<le> k \<and> storedInv n o' (e - 1) k p)"
proof (cases "k = diag")
  case True
  then show ?thesis using k v par by simp
next
  case False
  then have k1: "k \<noteq> diag - 1" and bk: "bp k = Some p"
    using k by (auto split: if_splits)
  show ?thesis
  proof (cases "even (k - e)")
    case True
    then show ?thesis using table_new [OF inv bk] by simp
  next
    case False
    then have "storedInv n o' (e - 1) k p" "diag - 1 \<le> k"
      using table_old [OF inv bk] by simp_all
    moreover have "k \<noteq> diag" using False par by auto
    ultimately show ?thesis using False k1 by simp
  qed
qed

lemma newWitness_step:
  assumes inv: "tableInv n o' e diag bp" and par: "even (diag - e)"
    and w: "newWitness n o' e bp"
  shows "newWitness n o' e (bp(diag - 1 := None, diag := v))"
proof -
  from w obtain k p where kp: "bp k = Some p" "even (k - e)"
    "e + int (rest n o' (components p)) \<le> int (editDistance n o')"
    by (auto simp: newWitness_def)
  have "k < diag" using table_new [OF inv kp(1,2)] by simp
  moreover have "k \<noteq> diag - 1" using kp(2) par by auto
  ultimately have "(bp(diag - 1 := None, diag := v)) k = Some p"
    using kp(1) by simp
  then show ?thesis using kp(2,3) unfolding newWitness_def by blast
qed

lemma newWitness_here:
  assumes "even (diag - e)"
    "e + int (rest n o' (components q)) \<le> int (editDistance n o')"
  shows "newWitness n o' e (bp(diag - 1 := None, diag \<mapsto> q))"
  unfolding newWitness_def using assms by (intro exI [of _ diag] exI [of _ q]) simp

text \<open>Where the path on a shortest script is, seen from diagonal \<open>diag\<close>.\<close>

lemma witness_cases:
  assumes inv: "tableInv n o' e diag bp" and par: "even (diag - e)"
  shows "newWitness n o' e bp
    \<or> (\<exists>a. bp (diag - 1) = Some a
          \<and> e - 1 + int (rest n o' (components a)) \<le> int (editDistance n o')
          \<and> newCount (components a) < length n
          \<and> editDistance (drop (Suc (newCount (components a))) n)
               (drop (oldCount (components a)) o') + 1 = rest n o' (components a))
    \<or> (\<exists>r. bp (diag + 1) = Some r
          \<and> e - 1 + int (rest n o' (components r)) \<le> int (editDistance n o')
          \<and> oldCount (components r) < length o'
          \<and> editDistance (drop (newCount (components r)) n)
               (drop (Suc (oldCount (components r))) o') + 1 = rest n o' (components r))
    \<or> (\<forall>v. oldWitness n o' e (diag + 2) (bp(diag - 1 := None, diag := v)))"
proof (cases "newWitness n o' e bp")
  case True
  then show ?thesis by simp
next
  case False
  with inv have "oldWitness n o' e diag bp" by (simp add: tableInv_def)
  then obtain k p where kp: "bp k = Some p" "odd (k - e)"
    "e - 1 + int (rest n o' (components p)) \<le> int (editDistance n o')"
    and alt: "(diag - 1 \<le> k \<and> newCount (components p) < length n
             \<and> editDistance (drop (Suc (newCount (components p))) n)
                  (drop (oldCount (components p)) o') + 1
                = rest n o' (components p))
           \<or> (diag + 1 \<le> k \<and> oldCount (components p) < length o'
             \<and> editDistance (drop (newCount (components p)) n)
                  (drop (Suc (oldCount (components p))) o') + 1
                = rest n o' (components p))"
    unfolding oldWitness_def by blast
  have kd: "k \<noteq> diag" using kp(2) par by auto
  have odd2: "k \<noteq> diag + 2" using kp(2) par by auto
  show ?thesis
  proof (cases "k = diag - 1")
    case True
    then show ?thesis using kp alt by auto
  next
    case False
    note k1 = this
    show ?thesis
    proof (cases "k = diag + 1")
      case True
      show ?thesis
      proof (cases "oldCount (components p) < length o'
             \<and> editDistance (drop (newCount (components p)) n)
                  (drop (Suc (oldCount (components p))) o') + 1
                = rest n o' (components p)")
        case True
        then show ?thesis using kp \<open>k = diag + 1\<close> by auto
      next
        case False
        then have addt: "newCount (components p) < length n
             \<and> editDistance (drop (Suc (newCount (components p))) n)
                  (drop (oldCount (components p)) o') + 1
                = rest n o' (components p)"
          using alt by auto
        have "oldWitness n o' e (diag + 2) (bp(diag - 1 := None, diag := v))" for v
          unfolding oldWitness_def
          using kp addt \<open>k = diag + 1\<close>
          by (intro exI [of _ k] exI [of _ p]) simp
        then show ?thesis by simp
      qed
    next
      case False
      then have far: "(diag + 1 \<le> k \<and> newCount (components p) < length n
             \<and> editDistance (drop (Suc (newCount (components p))) n)
                  (drop (oldCount (components p)) o') + 1
                = rest n o' (components p))
           \<or> (diag + 3 \<le> k \<and> oldCount (components p) < length o'
             \<and> editDistance (drop (newCount (components p)) n)
                  (drop (Suc (oldCount (components p))) o') + 1
                = rest n o' (components p))"
        using alt k1 kd odd2 by auto
      have "oldWitness n o' e (diag + 2) (bp(diag - 1 := None, diag := v))" for v
        unfolding oldWitness_def
        using kp far k1 kd
        by (intro exI [of _ k] exI [of _ p]) auto
      then show ?thesis by simp
    qed
  qed
qed

lemma witness_bound:
  assumes "tableInv n o' e diag bp"
  shows "e \<le> int (editDistance n o')"
  using assms unfolding tableInv_def newWitness_def oldWitness_def by auto

subsection \<open>One diagonal of a pass\<close>

lemma diagonal_step_prune:
  assumes inv: "tableInv n o' e diag bp" and par: "even (diag - e)"
    and nA: "\<not> canAdd (bp (diag - 1)) (int (length n))"
    and nR: "\<not> canRemove (bp (diag + 1))
               ((case bp (diag + 1) of Some r \<Rightarrow> newPos r | None \<Rightarrow> 0) - diag) (int (length o'))"
  shows "tableInv n o' e (diag + 2) (bp(diag - 1 := None, diag := None))"
proof -
  let ?bp' = "bp(diag - 1 := None, diag := None)"
  have entries: "(even (k - e) \<and> k < diag + 2 \<and> storedInv n o' e k p)
         \<or> (odd (k - e) \<and> diag + 1 \<le> k \<and> storedInv n o' (e - 1) k p)"
    if "?bp' k = Some p" for k p
    using table_entries_step [OF inv par _ that] by simp
  have noA: False if "bp (diag - 1) = Some a" "newCount (components a) < length n" for a
  proof -
    have "storedInv n o' (e - 1) (diag - 1) a"
      using table_old [OF inv that(1)] par by simp
    then have "newPos a + 1 < int (length n)"
      using that(2) by (auto simp: storedInv_def pathInv_def)
    then show False using nA that(1) by (simp add: canAdd_def)
  qed
  have noR: False if "bp (diag + 1) = Some r" "oldCount (components r) < length o'" for r
  proof -
    have "storedInv n o' (e - 1) (diag + 1) r"
      using table_old [OF inv that(1)] par by simp
    then have "0 \<le> newPos r - diag \<and> newPos r - diag < int (length o')"
      using that(2) by (auto simp: storedInv_def pathInv_def)
    then show False using nR that(1) by (simp add: canRemove_def)
  qed
  have "newWitness n o' e ?bp' \<or> oldWitness n o' e (diag + 2) ?bp'"
    using witness_cases [OF inv par] newWitness_step [OF inv par, of None] noA noR
    by blast
  moreover have "diag + 2 - 1 = diag + 1" by simp
  ultimately show ?thesis using entries unfolding tableInv_def by presburger
qed

lemma diagonal_step_branch:
  assumes inv: "tableInv n o' e diag bp" and par: "even (diag - e)"
    and opos: "opos = (case bp (diag + 1) of Some r \<Rightarrow> newPos r | None \<Rightarrow> 0) - diag"
    and cA: "cAdd = canAdd (bp (diag - 1)) (int (length n))"
    and cR: "cRemove = canRemove (bp (diag + 1)) opos (int (length o'))"
    and some: "cAdd \<or> cRemove"
  shows "\<exists>base base' opos'.
      basePathOf (bp (diag - 1)) (bp (diag + 1)) cAdd cRemove = Some base
      \<and> extractCommon base n o' diag = (base', opos')
      \<and> (if int (length n) \<le> newPos base' + 1 \<and> int (length o') \<le> opos' + 1
         then searchResult n o' (buildValues (components base') n o')
         else tableInv n o' e (diag + 2) (bp(diag - 1 := None, diag \<mapsto> base')))"
proof -
  have oldA: "storedInv n o' (e - 1) (diag - 1) a" if "bp (diag - 1) = Some a" for a
    using table_old [OF inv that] par by simp
  have oldR: "storedInv n o' (e - 1) (diag + 1) r" if "bp (diag + 1) = Some r" for r
    using table_old [OF inv that] par by simp
  from branch_base [of bp diag n o' e, OF oldA oldR opos cA cR some]
  obtain base where base: "basePathOf (bp (diag - 1)) (bp (diag + 1)) cAdd cRemove = Some base"
    and pi: "pathInv n o' e diag base" and ps: "preShape n o' (components base)"
    and A: "\<And>a. bp (diag - 1) = Some a \<Longrightarrow> newCount (components a) < length n
            \<Longrightarrow> Suc (newCount (components a)) \<le> newCount (components base)"
    and B: "\<And>r. bp (diag + 1) = Some r \<Longrightarrow> oldCount (components r) < length o'
            \<Longrightarrow> newCount (components r) \<le> newCount (components base)"
    by blast
  obtain base' opos' where ex: "extractCommon base n o' diag = (base', opos')"
    by (cases "extractCommon base n o' diag") auto
  have pi': "pathInv n o' e diag base'" using extractCommon_pathInv [OF pi ex] .
  have sh': "shapeInv n o' (components base')" using extractCommon_shape [OF pi ex ps] .
  have rs: "rest n o' (components base') = rest n o' (components base)"
    using extractCommon_rest [OF pi ex] .
  have mx: "newCount (components base') \<ge> length n \<or> oldCount (components base') \<ge> length o'
         \<or> n ! newCount (components base') \<noteq> o' ! oldCount (components base')"
    using extractCommon_maximal [OF pi ex] .
  have op': "opos' = newPos base' - diag" using extractCommon_editCount(2) [OF pi ex] .
  let ?bp' = "bp(diag - 1 := None, diag \<mapsto> base')"
  show ?thesis
  proof (cases "int (length n) \<le> newPos base' + 1 \<and> int (length o') \<le> opos' + 1")
    case True
    then have full: "newCount (components base') = length n" "oldCount (components base') = length o'"
      using pi' op' by (auto simp: pathInv_def)
    then have valid: "validScript o' n (components base')"
      using pi' by (simp add: validScript_def pathInv_def)
    have "rest n o' (components base') = 0" using full by (simp add: rest_def)
    then have "editDistance n o' \<le> editCount (components base')"
      using pathInv_lower_bound [OF pi'] by simp
    moreover have "int (editCount (components base')) = e" using pi' by (simp add: pathInv_def)
    moreover have "e \<le> int (editDistance n o')" using witness_bound [OF inv] .
    ultimately have "editCount (components base') = editDistance n o'" by linarith
    then have "searchResult n o' (buildValues (components base') n o')"
      using valid sh' unfolding searchResult_def by blast
    then show ?thesis using base ex True by auto
  next
    case False
    then have nt: "\<not> (newCount (components base') \<ge> length n
                    \<and> oldCount (components base') \<ge> length o')"
      using pi' op' by (auto simp: pathInv_def)
    have st': "storedInv n o' e diag base'"
      using pi' sh' nt mx by (simp add: storedInv_def stuck_def)
    have entries: "(even (k - e) \<and> k < diag + 2 \<and> storedInv n o' e k p)
         \<or> (odd (k - e) \<and> diag + 1 \<le> k \<and> storedInv n o' (e - 1) k p)"
      if "?bp' k = Some p" for k p
      using table_entries_step [OF inv par _ that] st' by simp
    have hereA: "newWitness n o' e ?bp'"
      if a: "bp (diag - 1) = Some a"
        "e - 1 + int (rest n o' (components a)) \<le> int (editDistance n o')"
        "newCount (components a) < length n"
        "editDistance (drop (Suc (newCount (components a))) n)
               (drop (oldCount (components a)) o') + 1 = rest n o' (components a)" for a
    proof -
      have "pathInv n o' (e - 1) (diag - 1) a" using oldA [OF a(1)] by (simp add: storedInv_def)
      then have "int (Suc (newCount (components a))) - int (oldCount (components a)) = diag"
        by (auto simp: pathInv_def)
      then have "rest n o' (components base)
          \<le> editDistance (drop (Suc (newCount (components a))) n) (drop (oldCount (components a)) o')"
        using A [OF a(1,3)] by (intro rest_dominates [OF pi])
      then have "e + int (rest n o' (components base')) \<le> int (editDistance n o')"
        using a(2,4) rs by linarith
      then show ?thesis using par by (intro newWitness_here)
    qed
    have hereR: "newWitness n o' e ?bp'"
      if r: "bp (diag + 1) = Some r"
        "e - 1 + int (rest n o' (components r)) \<le> int (editDistance n o')"
        "oldCount (components r) < length o'"
        "editDistance (drop (newCount (components r)) n)
               (drop (Suc (oldCount (components r))) o') + 1 = rest n o' (components r)" for r
    proof -
      have "pathInv n o' (e - 1) (diag + 1) r" using oldR [OF r(1)] by (simp add: storedInv_def)
      then have "int (newCount (components r)) - int (Suc (oldCount (components r))) = diag"
        by (auto simp: pathInv_def)
      then have "rest n o' (components base)
          \<le> editDistance (drop (newCount (components r)) n) (drop (Suc (oldCount (components r))) o')"
        using B [OF r(1,3)] by (intro rest_dominates [OF pi])
      then have "e + int (rest n o' (components base')) \<le> int (editDistance n o')"
        using r(2,4) rs by linarith
      then show ?thesis using par by (intro newWitness_here)
    qed
    have "newWitness n o' e ?bp' \<or> oldWitness n o' e (diag + 2) ?bp'"
      using witness_cases [OF inv par] newWitness_step [OF inv par, of "Some base'"] hereA hereR
      by blast
    moreover have "diag + 2 - 1 = diag + 1" by simp
    ultimately have "tableInv n o' e (diag + 2) ?bp'"
      using entries unfolding tableInv_def by presburger
    then show ?thesis using base ex False by auto
  qed
qed

subsection \<open>The passes\<close>

lemma diagonalLoop_unfold:
  assumes "diag \<le> e"
  shows "diagonalLoop n o' e diag bp =
     (if \<not> canAdd (bp (diag - 1)) (int (length n))
         \<and> \<not> canRemove (bp (diag + 1))
               ((case bp (diag + 1) of Some r \<Rightarrow> newPos r | None \<Rightarrow> 0) - diag) (int (length o'))
      then diagonalLoop n o' e (diag + 2) (bp(diag - 1 := None, diag := None))
      else (case basePathOf (bp (diag - 1)) (bp (diag + 1))
                  (canAdd (bp (diag - 1)) (int (length n)))
                  (canRemove (bp (diag + 1))
                     ((case bp (diag + 1) of Some r \<Rightarrow> newPos r | None \<Rightarrow> 0) - diag)
                     (int (length o'))) of
              None \<Rightarrow> Throw
            | Some basePath \<Rightarrow>
                (case extractCommon basePath n o' diag of
                   (basePath', opos') \<Rightarrow>
                     if int (length n) \<le> newPos basePath' + 1 \<and> int (length o') \<le> opos' + 1
                     then Return (buildValues (components basePath') n o')
                     else diagonalLoop n o' e (diag + 2)
                            (bp(diag - 1 := None, diag \<mapsto> basePath')))))"
  using assms
  by (subst diagonalLoop.simps) (simp only: Let_def clear_addPath if_True)

lemma diagonalLoop_inv:
  assumes "tableInv n o' e diag bp" "even (diag - e)" "diag \<le> e + 2"
  shows "(\<exists>script. diagonalLoop n o' e diag bp = Return script \<and> searchResult n o' script)
       \<or> (\<exists>bp'. diagonalLoop n o' e diag bp = Next bp' \<and> tableInv n o' e (e + 2) bp')"
  using assms
proof (induction "nat (e + 2 - diag)" arbitrary: diag bp rule: less_induct)
  case less
  note inv = less.prems(1) and par = less.prems(2)
  show ?case
  proof (cases "diag \<le> e")
    case False
    then have "diag = e + 2" using less.prems(2,3) by presburger
    moreover have "diagonalLoop n o' e diag bp = Next bp"
      using False by (subst diagonalLoop.simps) simp
    ultimately show ?thesis using inv by simp
  next
    case True
    note unf = diagonalLoop_unfold [OF True, of n o' bp]
    have par': "even (diag + 2 - e)" using par by simp
    have le': "diag + 2 \<le> e + 2" using True by simp
    have dec: "nat (e + 2 - (diag + 2)) < nat (e + 2 - diag)" using True by simp
    let ?cA = "canAdd (bp (diag - 1)) (int (length n))"
    let ?cR = "canRemove (bp (diag + 1))
               ((case bp (diag + 1) of Some r \<Rightarrow> newPos r | None \<Rightarrow> 0) - diag) (int (length o'))"
    show ?thesis
    proof (cases "\<not> ?cA \<and> \<not> ?cR")
      case True
      then have "tableInv n o' e (diag + 2) (bp(diag - 1 := None, diag := None))"
        using diagonal_step_prune [OF inv par] by simp
      from less.hyps [OF dec this par' le'] show ?thesis
        using True unf by simp
    next
      case False
      then have some: "?cA \<or> ?cR" by simp
      from diagonal_step_branch [OF inv par refl refl refl some]
      obtain base base' opos' where
        base: "basePathOf (bp (diag - 1)) (bp (diag + 1)) ?cA ?cR = Some base"
        and ex: "extractCommon base n o' diag = (base', opos')"
        and res: "if int (length n) \<le> newPos base' + 1 \<and> int (length o') \<le> opos' + 1
           then searchResult n o' (buildValues (components base') n o')
           else tableInv n o' e (diag + 2) (bp(diag - 1 := None, diag \<mapsto> base'))"
        by blast
      show ?thesis
      proof (cases "int (length n) \<le> newPos base' + 1 \<and> int (length o') \<le> opos' + 1")
        case True
        then have "diagonalLoop n o' e diag bp = Return (buildValues (components base') n o')"
          using unf False base ex by simp
        then show ?thesis using res True by simp
      next
        case False
        note notEnd = this
        then have "tableInv n o' e (diag + 2) (bp(diag - 1 := None, diag \<mapsto> base'))"
          using res by simp
        from less.hyps [OF dec this par' le'] show ?thesis
          using unf \<open>\<not> (\<not> ?cA \<and> \<not> ?cR)\<close> base ex notEnd by simp
      qed
    qed
  qed
qed

lemma table_nonneg:
  assumes inv: "tableInv n o' e diag bp"
  shows "0 \<le> e"
proof -
  from inv have "newWitness n o' e bp \<or> oldWitness n o' e diag bp"
    by (simp add: tableInv_def)
  then obtain k p where kp: "bp k = Some p"
    unfolding newWitness_def oldWitness_def by blast
  then have "storedInv n o' e k p \<or> storedInv n o' (e - 1) k p"
    using inv unfolding tableInv_def by blast
  then have "\<bar>k\<bar> \<le> e \<or> \<bar>k\<bar> \<le> e - 1"
    unfolding storedInv_def pathInv_def by blast
  then show ?thesis by linarith
qed

lemma table_next_pass:
  assumes inv: "tableInv n o' e (e + 2) bp"
  shows "tableInv n o' (e + 1) (- (e + 1)) bp"
proof -
  have st: "even (k - e) \<and> storedInv n o' e k p" if "bp k = Some p" for k p
  proof (cases "even (k - e)")
    case True
    then show ?thesis using table_new [OF inv that] by simp
  next
    case False
    then have "storedInv n o' (e - 1) k p" "e + 2 - 1 \<le> k"
      using table_old [OF inv that] by simp_all
    then show ?thesis by (auto simp: storedInv_def pathInv_def)
  qed
  have entries: "(even (k - (e + 1)) \<and> k < - (e + 1) \<and> storedInv n o' (e + 1) k p)
        \<or> (odd (k - (e + 1)) \<and> - (e + 1) - 1 \<le> k \<and> storedInv n o' (e + 1 - 1) k p)"
    if "bp k = Some p" for k p
  proof -
    have ev: "even (k - e)" and sk: "storedInv n o' e k p" using st [OF that] by simp_all
    from sk have "\<bar>k\<bar> \<le> e" unfolding storedInv_def pathInv_def by blast
    then have "- (e + 1) - 1 \<le> k" by linarith
    moreover have "odd (k - (e + 1))" using ev by simp
    moreover have "storedInv n o' (e + 1 - 1) k p" using sk by simp
    ultimately show ?thesis by blast
  qed
  have "newWitness n o' e bp"
    using inv st unfolding tableInv_def oldWitness_def by blast
  then obtain k p where kp: "bp k = Some p"
    "e + int (rest n o' (components p)) \<le> int (editDistance n o')"
    unfolding newWitness_def by blast
  have sp: "even (k - e)" "storedInv n o' e k p" using st [OF kp(1)] by simp_all
  have pk: "pathInv n o' e k p" and sk: "stuck n o' (components p)"
    using sp(2) by (simp_all add: storedInv_def)
  have "int (newCount (components p)) \<le> int (length n)"
    "int (oldCount (components p)) \<le> int (length o')" "\<bar>k\<bar> \<le> e"
    using pk unfolding pathInv_def by simp_all
  then have bounds: "newCount (components p) \<le> length n" "oldCount (components p) \<le> length o'"
    "\<bar>k\<bar> \<le> e" "stuck n o' (components p)"
    using sk by simp_all
  have "oldWitness n o' (e + 1) (- (e + 1)) bp"
    unfolding oldWitness_def
    using kp sp(1) bounds(3) stuck_neighbour [OF bounds(4,1,2)]
    by (intro exI [of _ k] exI [of _ p]) auto
  with entries show ?thesis unfolding tableInv_def by blast
qed

lemma editLoop_inv:
  assumes "tableInv n o' e (- e) bp"
  shows "\<exists>script. editLoop n o' e bp = Inr script \<and> searchResult n o' script"
  using assms
proof (induction "nat (int (length n) + int (length o') + 1 - e)" arbitrary: e bp rule: less_induct)
  case less
  note inv = less.prems(1)
  have "e \<le> int (editDistance n o')" using witness_bound [OF inv] .
  also have "\<dots> \<le> int (length n) + int (length o')"
    using editDistance_le_sum [of n o'] by linarith
  finally have run: "e \<le> int (length n) + int (length o')" .
  have unf: "editLoop n o' e bp =
      (case diagonalLoop n o' e (- e) bp of
         Return ret \<Rightarrow> Inr ret
       | Throw \<Rightarrow> Inl TypeError
       | Next bestPath' \<Rightarrow> editLoop n o' (e + 1) bestPath')"
    using run by (subst editLoop.simps) (simp add: execEditLength_def)
  have "0 \<le> e" using table_nonneg [OF inv] .
  then have "even (- e - e)" "- e \<le> e + 2" by simp_all
  from diagonalLoop_inv [OF inv this]
  consider (ret) script where "diagonalLoop n o' e (- e) bp = Return script" "searchResult n o' script"
    | (nxt) bp' where "diagonalLoop n o' e (- e) bp = Next bp'" "tableInv n o' e (e + 2) bp'"
    by auto
  then show ?case
  proof cases
    case ret
    then show ?thesis using unf by simp
  next
    case nxt
    have "tableInv n o' (e + 1) (- (e + 1)) bp'" using table_next_pass [OF nxt(2)] .
    moreover have "nat (int (length n) + int (length o') + 1 - (e + 1))
        < nat (int (length n) + int (length o') + 1 - e)"
      using run by simp
    ultimately show ?thesis
      using less.hyps [of "e + 1" bp'] unf nxt(1) by simp
  qed
qed

subsection \<open>The seed and the whole search\<close>

lemma seed_table:
  assumes ex: "extractCommon \<lparr>newPos = - 1, components = []\<rparr> n o' 0 = (seed, opos)"
    and notEnd: "\<not> (int (length n) \<le> newPos seed + 1 \<and> int (length o') \<le> opos + 1)"
  shows "tableInv n o' 1 (- 1) ((\<lambda>k. None)(0 \<mapsto> seed))"
proof -
  let ?b = "\<lparr>newPos = - 1, components = []\<rparr>"
  have pi: "pathInv n o' 0 0 ?b" by (simp add: pathInv_def)
  have pi': "pathInv n o' 0 0 seed" using extractCommon_pathInv [OF pi ex] .
  have op: "opos = newPos seed - 0" using extractCommon_editCount(2) [OF pi ex] .
  from pi ex obtain s where s: "s = length (commonPrefix (drop (newCount (components ?b)) n)
                   (drop (oldCount (components ?b)) o'))"
    and cs: "components seed =
       (if s \<noteq> 0 then components ?b @ [\<lparr>change.count = s, added = False, removed = False\<rparr>]
        else components ?b)"
    by (rule extractCommon_cases)
  have s': "s = length (commonPrefix n o')" using s by simp
  have sh: "shapeInv n o' (components seed)"
    using cs s' by (auto simp: shapeInv_def wellFormed_def headIsPrefix_def Suc_le_eq)
  have nt: "\<not> (newCount (components seed) \<ge> length n \<and> oldCount (components seed) \<ge> length o')"
    using notEnd pi' op by (auto simp: pathInv_def)
  have st: "stuck n o' (components seed)"
    using nt extractCommon_maximal [OF pi ex] by (simp add: stuck_def)
  have stored: "storedInv n o' 0 0 seed"
    using pi' sh st by (simp add: storedInv_def)
  have rs: "rest n o' (components seed) = editDistance n o'"
    using extractCommon_rest [OF pi ex] by (simp add: rest_def)
  have "int (newCount (components seed)) \<le> int (length n)"
    "int (oldCount (components seed)) \<le> int (length o')"
    using pi' unfolding pathInv_def by simp_all
  then have bounds: "newCount (components seed) \<le> length n" "oldCount (components seed) \<le> length o'"
    by simp_all
  have "oldWitness n o' 1 (- 1) ((\<lambda>k. None)(0 \<mapsto> seed))"
    unfolding oldWitness_def
    using rs stuck_neighbour [OF st bounds]
    by (intro exI [of _ 0] exI [of _ seed]) auto
  moreover have "(even (k - 1) \<and> k < - 1 \<and> storedInv n o' 1 k p)
        \<or> (odd (k - 1) \<and> - 1 - 1 \<le> k \<and> storedInv n o' (1 - 1) k p)"
    if "((\<lambda>k. None)(0 \<mapsto> seed)) k = Some p" for k p
    using that stored by (auto split: if_splits)
  ultimately show ?thesis unfolding tableInv_def by blast
qed

lemma seed_not_end:
  assumes ex: "extractCommon \<lparr>newPos = - 1, components = []\<rparr> n o' 0 = (seed, opos)"
    and ne: "n \<noteq> o'"
  shows "\<not> (int (length n) \<le> newPos seed + 1 \<and> int (length o') \<le> opos + 1)"
proof
  assume end': "int (length n) \<le> newPos seed + 1 \<and> int (length o') \<le> opos + 1"
  let ?b = "\<lparr>newPos = - 1, components = []\<rparr>"
  have pi: "pathInv n o' 0 0 ?b" by (simp add: pathInv_def)
  have pi': "pathInv n o' 0 0 seed" using extractCommon_pathInv [OF pi ex] .
  have op: "opos = newPos seed - 0" using extractCommon_editCount(2) [OF pi ex] .
  have "newCount (components seed) = length n" "oldCount (components seed) = length o'"
    using end' pi' op by (auto simp: pathInv_def)
  then have "rest n o' (components seed) = 0" by (simp add: rest_def)
  moreover have "editCount (components seed) = 0" using pi' by (simp add: pathInv_def)
  ultimately have "editDistance n o' = 0"
    using pathInv_lower_bound [OF pi'] by simp
  then show False using ne editDistance_zero by blast
qed

lemma diffChars_search:
  assumes "newString \<noteq> oldString" "newString \<noteq> []" "oldString \<noteq> []"
  shows "\<exists>script. diffChars oldString newString = Inr script
           \<and> searchResult newString oldString script"
proof -
  obtain seed opos where
    ex: "extractCommon \<lparr>newPos = - 1, components = []\<rparr> newString oldString 0 = (seed, opos)"
    by (cases "extractCommon \<lparr>newPos = - 1, components = []\<rparr> newString oldString 0") auto
  have notEnd: "\<not> (int (length newString) \<le> newPos seed + 1
                  \<and> int (length oldString) \<le> opos + 1)"
    using seed_not_end [OF ex assms(1)] .
  have "diffChars oldString newString
      = editLoop newString oldString 1 ((\<lambda>k. None)(0 \<mapsto> seed))"
    using assms ex notEnd by (auto simp: diffChars_def)
  moreover have "tableInv newString oldString 1 (- 1) ((\<lambda>k. None)(0 \<mapsto> seed))"
    using seed_table [OF ex notEnd] .
  ultimately show ?thesis using editLoop_inv [of newString oldString 1] by simp
qed

subsection \<open>What the built values say\<close>

lemma buildLoop_kinds:
  "map (\<lambda>c. (component.added c, component.removed c)) (buildLoop cs n o' i j) = map kindOf cs"
  by (induction cs arbitrary: i j) (auto simp: kindOf_def)

lemma buildLoop_counts:
  "map component.count (buildLoop cs n o' i j) = map (\<lambda>c. Some (change.count c)) cs"
  by (induction cs arbitrary: i j) auto

lemma buildLoop_flags:
  "map component.added (buildLoop cs n o' i j) = map change.added cs"
  "map component.removed (buildLoop cs n o' i j) = map change.removed cs"
  by (induction cs arbitrary: i j) auto

lemma buildLoop_new:
  "concat (map component.value (filter (\<lambda>c. \<not> component.removed c) (buildLoop cs n o' i j)))
     = take (newCount cs) (drop i n)"
proof (induction cs arbitrary: i j)
  case Nil
  then show ?case by simp
next
  case (Cons c cs)
  show ?case
  proof (cases "change.removed c")
    case True
    then show ?thesis using Cons.IH by simp
  next
    case False
    then show ?thesis
      using Cons.IH [of "i + change.count c"]
      by (simp add: slice_def take_add add.commute)
  qed
qed

lemma buildLoop_old:
  assumes "aligned n o' cs i j"
    "list_all (\<lambda>c. \<not> (change.added c \<and> change.removed c)) cs"
  shows "concat (map component.value (filter (\<lambda>c. \<not> component.added c) (buildLoop cs n o' i j)))
     = take (oldCount cs) (drop j o')"
  using assms
proof (induction cs arbitrary: i j)
  case Nil
  then show ?case by simp
next
  case (Cons c cs)
  show ?case
  proof (cases "change.removed c")
    case True
    then show ?thesis
      using Cons.IH [of i "j + change.count c"] Cons.prems
      by (simp add: slice_def take_add add.commute)
  next
    case False
    note nr = this
    show ?thesis
    proof (cases "change.added c")
      case True
      then show ?thesis using Cons.IH [of "i + change.count c" j] Cons.prems nr by simp
    next
      case False
      then show ?thesis
        using Cons.IH [of "i + change.count c" "j + change.count c"] Cons.prems nr
        by (simp add: slice_def take_add add.commute)
    qed
  qed
qed

lemma buildLoop_countSum:
  "countSum (editComponents (buildLoop cs n o' i j)) = Some (editCount cs)"
  by (induction cs arbitrary: i j) (auto simp: editComponents_def)

lemma buildLoop_editLength:
  "i + newCount cs \<le> length n \<Longrightarrow> j + oldCount cs \<le> length o' \<Longrightarrow>
   length (concat (map component.value (editComponents (buildLoop cs n o' i j)))) = editCount cs"
proof (induction cs arbitrary: i j)
  case Nil
  then show ?case by (simp add: editComponents_def)
next
  case (Cons c cs)
  show ?case
  proof (cases "change.removed c")
    case True
    then show ?thesis
      using Cons.IH [of i "j + change.count c"] Cons.prems
      by (simp add: editComponents_def slice_def)
  next
    case False
    note nr = this
    show ?thesis
    proof (cases "change.added c")
      case True
      then show ?thesis
        using Cons.IH [of "i + change.count c" j] Cons.prems nr
        by (simp add: editComponents_def slice_def)
    next
      case False
      then show ?thesis
        using Cons.IH [of "i + change.count c" "j + change.count c"] Cons.prems nr
        by (simp add: editComponents_def slice_def add.assoc)
    qed
  qed
qed

lemma buildLoop_components:
  "list_all (\<lambda>c. 1 \<le> change.count c \<and> \<not> (change.added c \<and> change.removed c)) cs \<Longrightarrow>
   list_all (\<lambda>c. hasCount c \<and> oneFlag c) (buildLoop cs n o' i j)"
  by (induction cs arbitrary: i j) (auto simp: hasCount_def oneFlag_def)

lemma commonPrefix_sym: "commonPrefix xs ys = commonPrefix ys xs"
  by (induction xs ys rule: commonPrefix.induct) auto

lemma searchResult_texts:
  assumes "searchResult n o' script"
  shows "newText script = n" and "oldText script = o'"
proof -
  from assms obtain cs where s: "script = buildLoop cs n o' 0 0"
    and v: "newCount cs = length n" "oldCount cs = length o'" "aligned n o' cs 0 0"
    and w: "wellFormed cs"
    by (auto simp: searchResult_def validScript_def shapeInv_def buildValues_def)
  show "newText script = n"
    unfolding newText_def s buildLoop_new using v(1) by simp
  have "list_all (\<lambda>c. \<not> (change.added c \<and> change.removed c)) cs"
    using w by (auto simp: wellFormed_def list_all_iff)
  then show "oldText script = o'"
    unfolding oldText_def s using buildLoop_old [OF v(3)] v(2) by simp
qed

lemma searchResult_kinds:
  assumes "searchResult n o' script"
  shows "distinct_adj (map flagsOf script)"
proof -
  from assms obtain cs where s: "script = buildLoop cs n o' 0 0" and w: "wellFormed cs"
    by (auto simp: searchResult_def shapeInv_def buildValues_def)
  have "map flagsOf script = map kindOf cs"
    unfolding s using buildLoop_kinds [of cs n o' 0 0] by (simp add: flagsOf_def [abs_def])
  then show ?thesis using w by (simp add: wellFormed_def)
qed

lemma searchResult_components:
  assumes "searchResult n o' script"
  shows "list_all (\<lambda>c. hasCount c \<and> oneFlag c) script"
proof -
  from assms obtain cs where s: "script = buildLoop cs n o' 0 0" and w: "wellFormed cs"
    by (auto simp: searchResult_def shapeInv_def buildValues_def)
  show ?thesis unfolding s using w by (intro buildLoop_components) (simp add: wellFormed_def)
qed

lemma searchResult_cost:
  assumes "searchResult n o' script"
  shows "countSum (editComponents script) = Some (editDistance n o')"
    and "length (concat (map component.value (editComponents script))) = editDistance n o'"
proof -
  from assms obtain cs where s: "script = buildLoop cs n o' 0 0"
    and v: "newCount cs = length n" "oldCount cs = length o'"
    and e: "editCount cs = editDistance n o'"
    by (auto simp: searchResult_def validScript_def buildValues_def)
  show "countSum (editComponents script) = Some (editDistance n o')"
    unfolding s buildLoop_countSum using e by simp
  show "length (concat (map component.value (editComponents script))) = editDistance n o'"
    unfolding s using buildLoop_editLength [of 0 cs n 0 o'] v e by simp
qed

lemma searchResult_head:
  assumes "searchResult n o' script" "commonPrefix n o' \<noteq> []"
  shows "\<exists>tail. script =
     \<lparr>count = Some (length (commonPrefix n o')), added = False, removed = False,
       value = commonPrefix n o'\<rparr> # tail"
proof -
  from assms obtain cs where s: "script = buildLoop cs n o' 0 0"
    and h: "cs \<noteq> []"
      "hd cs = \<lparr>change.count = length (commonPrefix n o'), added = False, removed = False\<rparr>"
    by (auto simp: searchResult_def shapeInv_def headIsPrefix_def buildValues_def)
  then obtain cs' where cs: "cs =
      \<lparr>change.count = length (commonPrefix n o'), added = False, removed = False\<rparr> # cs'"
    by (cases cs) auto
  have "take (length (commonPrefix n o')) n = commonPrefix n o'"
    using commonPrefix_take [of n o'] by simp
  then show ?thesis unfolding s cs by (simp add: slice_def)
qed

lemma commonPrefix_longest:
  "take k xs = take k ys \<Longrightarrow> k \<le> length xs \<Longrightarrow> k \<le> length ys \<Longrightarrow>
   k \<le> length (commonPrefix xs ys)"
proof (induction xs ys arbitrary: k rule: commonPrefix.induct)
  case (1 x xs y ys)
  then show ?case by (cases k) auto
qed simp_all

text \<open>Every call returns a script: one of the three direct returns, or what the search
  finds.\<close>

lemma diffChars_result:
  "\<exists>script. diffChars oldString newString = Inr script
     \<and> (if newString = oldString
        then script = [\<lparr>count = None, added = False, removed = False, value = newString\<rparr>]
        else if newString = []
        then script = [\<lparr>count = None, added = False, removed = True, value = oldString\<rparr>]
        else if oldString = []
        then script = [\<lparr>count = None, added = True, removed = False, value = newString\<rparr>]
        else searchResult newString oldString script)"
proof (cases "newString \<noteq> oldString \<and> newString \<noteq> [] \<and> oldString \<noteq> []")
  case True
  then show ?thesis using diffChars_search [of newString oldString] by auto
next
  case False
  then show ?thesis by (auto simp: diffChars_def)
qed

lemma validScript_exists:
  "\<exists>cs. validScript oldString newString cs \<and> editCount cs = editDistance oldString newString"
proof (cases "newString \<noteq> oldString \<and> newString \<noteq> [] \<and> oldString \<noteq> []")
  case True
  then obtain script where "searchResult newString oldString script"
    using diffChars_search [of newString oldString] by auto
  then show ?thesis
    unfolding searchResult_def by (auto simp: editDistance_sym)
next
  case False
  then consider "newString = oldString" | "newString = []" | "oldString = []" by blast
  then show ?thesis
  proof cases
    case 1
    have "validScript oldString oldString
        [\<lparr>change.count = length oldString, added = False, removed = False\<rparr>]"
      by (simp add: validScript_def)
    then show ?thesis using 1
      by (intro exI [of _ "[\<lparr>change.count = length oldString, added = False, removed = False\<rparr>]"]) simp
  next
    case 2
    have "validScript oldString []
        [\<lparr>change.count = length oldString, added = False, removed = True\<rparr>]"
      by (simp add: validScript_def)
    then show ?thesis using 2
      by (intro exI [of _ "[\<lparr>change.count = length oldString, added = False, removed = True\<rparr>]"]) simp
  next
    case 3
    have "validScript [] newString
        [\<lparr>change.count = length newString, added = True, removed = False\<rparr>]"
      by (simp add: validScript_def)
    then show ?thesis using 3
      by (intro exI [of _ "[\<lparr>change.count = length newString, added = True, removed = False\<rparr>]"]) simp
  qed
qed

subsection \<open>The pass that returns\<close>

lemma editLoop_pass:
  assumes "editLoop n o' e bp = Inr script" "tableAt n o' t k = Some bp" "e = int k + 1"
  shows "\<exists>k' bp'. tableAt n o' t k' = Some bp'
           \<and> int k' + 1 \<le> int (length n) + int (length o')
           \<and> execEditLength n o' (int k' + 1) bp' = Return script"
  using assms
proof (induction "nat (int (length n) + int (length o') + 1 - e)" arbitrary: e bp k rule: less_induct)
  case less
  have run: "e \<le> int (length n) + int (length o')"
    using less.prems(1) by (subst (asm) editLoop.simps) (auto split: if_splits)
  then have unf: "editLoop n o' e bp =
      (case execEditLength n o' e bp of
         Return ret \<Rightarrow> Inr ret
       | Throw \<Rightarrow> Inl TypeError
       | Next bestPath' \<Rightarrow> editLoop n o' (e + 1) bestPath')"
    by (subst editLoop.simps) simp
  show ?case
  proof (cases "execEditLength n o' e bp")
    case (Return ret)
    then have "ret = script" using unf less.prems(1) by simp
    then show ?thesis using Return run less.prems(2,3) by blast
  next
    case (Next bp')
    then have loop: "editLoop n o' (e + 1) bp' = Inr script" using unf less.prems(1) by simp
    have tab: "tableAt n o' t (Suc k) = Some bp'"
      using less.prems(2,3) Next by simp
    have "nat (int (length n) + int (length o') + 1 - (e + 1))
        < nat (int (length n) + int (length o') + 1 - e)"
      using run by simp
    from less.hyps [OF this loop tab] less.prems(3) show ?thesis by simp
  next
    case Throw
    then show ?thesis using unf less.prems(1) by simp
  qed
qed

lemma diffChars_search_eq:
  assumes "newString \<noteq> oldString" "newString \<noteq> []" "oldString \<noteq> []"
  shows "diffChars oldString newString
           = editLoop newString oldString 1 (seedTable newString oldString)"
proof -
  obtain seed opos where
    ex: "extractCommon \<lparr>newPos = - 1, components = []\<rparr> newString oldString 0 = (seed, opos)"
    by (cases "extractCommon \<lparr>newPos = - 1, components = []\<rparr> newString oldString 0") auto
  have "\<not> (int (length newString) \<le> newPos seed + 1 \<and> int (length oldString) \<le> opos + 1)"
    using seed_not_end [OF ex assms(1)] .
  then show ?thesis using assms ex by (auto simp: diffChars_def seedTable_def)
qed

section \<open>Direct returns and a concrete run\<close>

text \<open>
  Claim C6. For every sequence \<open>S\<close>, the empty one included, \<open>diff(S, S)\<close> is a script of
  exactly one component, with neither flag set, whose value is \<open>S\<close>; so
  \<open>diff("", "")\<close> is \<open>[{value: ""}]\<close>.
\<close>

theorem diffChars_identity:
  "diffChars s s = Inr [\<lparr>count = None, added = False, removed = False, value = s\<rparr>]
   \<and> diffChars ([] :: 'a list) [] = Inr [\<lparr>count = None, added = False, removed = False, value = []\<rparr>]"
  by (simp add: diffChars_def)

text \<open>
  Claim C7. For every non-empty sequence \<open>S\<close>, \<open>diff("", S)\<close> is a script of exactly one
  component, marked added, with value \<open>S\<close>, and \<open>diff(S, "")\<close> is a script of exactly one
  component, marked removed, with value \<open>S\<close>.
\<close>

theorem diffChars_empty_side:
  assumes "s \<noteq> []"
  shows "diffChars [] s = Inr [\<lparr>count = None, added = True, removed = False, value = s\<rparr>]
         \<and> diffChars s [] = Inr [\<lparr>count = None, added = False, removed = True, value = s\<rparr>]"
  using assms by (simp add: diffChars_def)

theorem diffChars_empty_side_witness:
  "''ab'' \<noteq> []
   \<and> diffChars [] ''ab'' = Inr [\<lparr>count = None, added = True, removed = False, value = ''ab''\<rparr>]
   \<and> diffChars ''ab'' [] = Inr [\<lparr>count = None, added = False, removed = True, value = ''ab''\<rparr>]"
  using diffChars_empty_side [of "''ab''"] by simp

text \<open>
  Claim C9. \<open>diff("abc", "abXc")\<close> is exactly the script of three components
  \<open>{count: 2, value: "ab"}\<close>, \<open>{count: 1, added: true, value: "X"}\<close>,
  \<open>{count: 1, value: "c"}\<close>.
\<close>

theorem diffChars_abc_abXc:
  "diffChars ''abc'' ''abXc'' =
     Inr [\<lparr>count = Some 2, added = False, removed = False, value = ''ab''\<rparr>,
          \<lparr>count = Some 1, added = True, removed = False, value = ''X''\<rparr>,
          \<lparr>count = Some 1, added = False, removed = False, value = ''c''\<rparr>]"
  by code_simp

section \<open>Properties of the returned script\<close>

text \<open>
  Claim C3. For every pair of finite sequences, \<open>diff\<close> terminates and returns an edit
  script from \<open>old\<close> to \<open>new\<close>: the loop over trial edit lengths, starting at 1 and going up
  by one per pass without a result, reaches a pass of some edit length no greater than
  \<open>len(old) + len(new)\<close> that returns the script, so the function never leaves the loop
  without a result.
\<close>

theorem diffChars_total:
  "\<exists>script. diffChars oldString newString = Inr script
     \<and> newText script = newString \<and> oldText script = oldString
     \<and> (oldString \<noteq> newString \<and> oldString \<noteq> [] \<and> newString \<noteq> [] \<longrightarrow>
          (\<exists>k bp. tableAt newString oldString (seedTable newString oldString) k = Some bp
             \<and> int k + 1 \<le> int (length oldString) + int (length newString)
             \<and> execEditLength newString oldString (int k + 1) bp = Return script))"
proof -
  from diffChars_result [of oldString newString] obtain script
    where r: "diffChars oldString newString = Inr script"
      and c: "if newString = oldString
        then script = [\<lparr>count = None, added = False, removed = False, value = newString\<rparr>]
        else if newString = []
        then script = [\<lparr>count = None, added = False, removed = True, value = oldString\<rparr>]
        else if oldString = []
        then script = [\<lparr>count = None, added = True, removed = False, value = newString\<rparr>]
        else searchResult newString oldString script"
    by blast
  have texts: "newText script = newString \<and> oldText script = oldString"
    using c searchResult_texts [of newString oldString script]
    by (auto simp: newText_def oldText_def split: if_splits)
  have pass: "\<exists>k bp. tableAt newString oldString (seedTable newString oldString) k = Some bp
             \<and> int k + 1 \<le> int (length oldString) + int (length newString)
             \<and> execEditLength newString oldString (int k + 1) bp = Return script"
    if "oldString \<noteq> newString \<and> oldString \<noteq> [] \<and> newString \<noteq> []"
  proof -
    have "editLoop newString oldString 1 (seedTable newString oldString) = Inr script"
      using diffChars_search_eq [of newString oldString] that r by auto
    from editLoop_pass [OF this, of "seedTable newString oldString" 0]
    show ?thesis by (simp add: add.commute)
  qed
  show ?thesis using r texts pass by blast
qed

theorem diffChars_total_witness:
  "''ab'' \<noteq> ''ba'' \<and> ''ab'' \<noteq> [] \<and> ''ba'' \<noteq> []
   \<and> (\<exists>script. diffChars ''ab'' ''ba'' = Inr script
         \<and> newText script = ''ba'' \<and> oldText script = ''ab''
         \<and> (\<exists>k bp. tableAt ''ba'' ''ab'' (seedTable ''ba'' ''ab'') k = Some bp
               \<and> int k + 1 \<le> 4
               \<and> execEditLength ''ba'' ''ab'' (int k + 1) bp = Return script))"
  using diffChars_total [of "''ab''" "''ba''"] by simp

text \<open>
  Claim C2. For every pair of finite sequences, the values of the components of
  \<open>diff(old, new)\<close> that are not removed, concatenated in order, are exactly \<open>new\<close>, and the
  values of the components that are not added are exactly \<open>old\<close>.
\<close>

theorem diffChars_reconstructs:
  "\<exists>script. diffChars oldString newString = Inr script
     \<and> newText script = newString \<and> oldText script = oldString"
proof -
  from diffChars_result [of oldString newString] obtain script
    where r: "diffChars oldString newString = Inr script"
      and c: "if newString = oldString
        then script = [\<lparr>count = None, added = False, removed = False, value = newString\<rparr>]
        else if newString = []
        then script = [\<lparr>count = None, added = False, removed = True, value = oldString\<rparr>]
        else if oldString = []
        then script = [\<lparr>count = None, added = True, removed = False, value = newString\<rparr>]
        else searchResult newString oldString script"
    by blast
  have "newText script = newString \<and> oldText script = oldString"
    using c searchResult_texts [of newString oldString script]
    by (auto simp: newText_def oldText_def split: if_splits)
  with r show ?thesis by blast
qed

text \<open>
  Claim C5. For every pair of finite sequences, the script returned by \<open>diff(old, new)\<close>
  never has two consecutive components with the same pair of flags: no two adjacent added
  components, no two adjacent removed components, no two adjacent common components.
\<close>

theorem diffChars_no_adjacent_same_kind:
  "\<exists>script. diffChars oldString newString = Inr script \<and> distinct_adj (map flagsOf script)"
proof -
  from diffChars_result [of oldString newString] obtain script
    where r: "diffChars oldString newString = Inr script"
      and c: "if newString = oldString
        then script = [\<lparr>count = None, added = False, removed = False, value = newString\<rparr>]
        else if newString = []
        then script = [\<lparr>count = None, added = False, removed = True, value = oldString\<rparr>]
        else if oldString = []
        then script = [\<lparr>count = None, added = True, removed = False, value = newString\<rparr>]
        else searchResult newString oldString script"
    by blast
  have "distinct_adj (map flagsOf script)"
    using c searchResult_kinds [of newString oldString script]
    by (auto split: if_splits)
  with r show ?thesis by blast
qed

text \<open>
  Claim C10. For every pair of distinct sequences with a non-empty common prefix, the first
  component of \<open>diff(old, new)\<close> is a common component (neither flag set) whose value is
  exactly the longest common prefix of \<open>old\<close> and \<open>new\<close>.
\<close>

theorem diffChars_common_prefix_first:
  assumes "oldString \<noteq> newString" "commonPrefix oldString newString \<noteq> []"
  shows "\<exists>tail. diffChars oldString newString =
     Inr (\<lparr>count = Some (length (commonPrefix oldString newString)),
            added = False, removed = False,
            value = commonPrefix oldString newString\<rparr> # tail)"
proof -
  have ne: "newString \<noteq> oldString" "newString \<noteq> []" "oldString \<noteq> []"
    using assms by auto
  then obtain script where r: "diffChars oldString newString = Inr script"
    and s: "searchResult newString oldString script"
    using diffChars_search [of newString oldString] by blast
  have "commonPrefix newString oldString \<noteq> []"
    using assms(2) by (simp add: commonPrefix_sym)
  from searchResult_head [OF s this] r show ?thesis
    by (simp add: commonPrefix_sym [of newString oldString])
qed

theorem diffChars_common_prefix_first_witness:
  "''abc'' \<noteq> ''abXc'' \<and> commonPrefix ''abc'' ''abXc'' = ''ab''
   \<and> (\<exists>tail. diffChars ''abc'' ''abXc'' =
        Inr (\<lparr>count = Some 2, added = False, removed = False, value = ''ab''\<rparr> # tail))"
  using diffChars_common_prefix_first [of "''abc''" "''abXc''"] by (simp add: numeral_2_eq_2)

text \<open>
  Claim C1, as the script is built. For every pair of finite sequences, \<open>diff(old, new)\<close> is a
  script in which the values of the added and removed components have a total length
  equal to the insert/delete edit distance of \<open>old\<close> and \<open>new\<close>; no valid edit script from
  \<open>old\<close> to \<open>new\<close> has fewer edits and one has exactly as many. Unless exactly one of
  \<open>old\<close> and \<open>new\<close> is empty, the \<open>count\<close> fields of the added and removed components
  sum to that distance.
\<close>

theorem diffChars_minimal:
  "\<exists>script. diffChars oldString newString = Inr script
     \<and> length (concat (map component.value (editComponents script)))
         = editDistance oldString newString
     \<and> ((oldString = []) = (newString = []) \<longrightarrow>
          countSum (editComponents script) = Some (editDistance oldString newString))
     \<and> (\<forall>cs. validScript oldString newString cs \<longrightarrow> editDistance oldString newString \<le> editCount cs)
     \<and> (\<exists>cs. validScript oldString newString cs \<and> editCount cs = editDistance oldString newString)"
proof -
  from diffChars_result [of oldString newString] obtain script
    where r: "diffChars oldString newString = Inr script"
      and c: "if newString = oldString
        then script = [\<lparr>count = None, added = False, removed = False, value = newString\<rparr>]
        else if newString = []
        then script = [\<lparr>count = None, added = False, removed = True, value = oldString\<rparr>]
        else if oldString = []
        then script = [\<lparr>count = None, added = True, removed = False, value = newString\<rparr>]
        else searchResult newString oldString script"
    by blast
  have len: "length (concat (map component.value (editComponents script)))
         = editDistance oldString newString"
    using c searchResult_cost(2) [of newString oldString script]
    by (auto simp: editComponents_def editDistance_sym split: if_splits)
  have cnt: "countSum (editComponents script) = Some (editDistance oldString newString)"
    if "(oldString = []) = (newString = [])"
    using c that searchResult_cost(1) [of newString oldString script]
    by (auto simp: editComponents_def editDistance_sym split: if_splits)
  have low: "editDistance oldString newString \<le> editCount cs"
    if "validScript oldString newString cs" for cs
    using validScript_lower_bound [OF that] by (simp add: editDistance_sym)
  show ?thesis
    using r len cnt low validScript_exists [of oldString newString] by blast
qed

theorem diffChars_minimal_witness:
  "(''abc'' = []) = (''abXc'' = [])
   \<and> validScript ''abc'' ''abXc''
        [\<lparr>change.count = 2, added = False, removed = False\<rparr>,
         \<lparr>change.count = 1, added = True, removed = False\<rparr>,
         \<lparr>change.count = 1, added = False, removed = False\<rparr>]
   \<and> (\<exists>script. diffChars ''abc'' ''abXc'' = Inr script
         \<and> countSum (editComponents script) = Some (editDistance ''abc'' ''abXc''))
   \<and> editDistance ''abc'' ''abXc'' \<le> 1"
proof -
  have v: "validScript ''abc'' ''abXc''
        [\<lparr>change.count = 2, added = False, removed = False\<rparr>,
         \<lparr>change.count = 1, added = True, removed = False\<rparr>,
         \<lparr>change.count = 1, added = False, removed = False\<rparr>]"
    by (simp add: validScript_def)
  from diffChars_minimal [of "''abc''" "''abXc''"] obtain script
    where "diffChars ''abc'' ''abXc'' = Inr script"
      "(''abc'' = []) = (''abXc'' = []) \<longrightarrow>
          countSum (editComponents script) = Some (editDistance ''abc'' ''abXc'')"
      "\<forall>cs. validScript ''abc'' ''abXc'' cs \<longrightarrow> editDistance ''abc'' ''abXc'' \<le> editCount cs"
    by blast
  then show ?thesis using v by fastforce
qed

theorem diffChars_count_sum_counterexample:
  "diffChars [] ''a'' = Inr [\<lparr>count = None, added = True, removed = False, value = ''a''\<rparr>]
   \<and> countSum (editComponents [\<lparr>count = None, added = True, removed = False, value = ''a''\<rparr>])
       \<noteq> Some (editDistance [] ''a'')"
  by (simp add: diffChars_def editComponents_def)

text \<open>
  Claim C8, as the components are built. In every script returned by \<open>diff\<close>, every
  component has at most one of its flags \<open>added\<close> and \<open>removed\<close> true, a component with
  neither being a common run; when \<open>old\<close> and \<open>new\<close> differ and neither is empty, every
  component has a count of at least 1.
\<close>

theorem diffChars_components:
  "\<exists>script. diffChars oldString newString = Inr script
     \<and> list_all oneFlag script
     \<and> (oldString \<noteq> newString \<and> oldString \<noteq> [] \<and> newString \<noteq> [] \<longrightarrow> list_all hasCount script)"
proof -
  from diffChars_result [of oldString newString] obtain script
    where r: "diffChars oldString newString = Inr script"
      and c: "if newString = oldString
        then script = [\<lparr>count = None, added = False, removed = False, value = newString\<rparr>]
        else if newString = []
        then script = [\<lparr>count = None, added = False, removed = True, value = oldString\<rparr>]
        else if oldString = []
        then script = [\<lparr>count = None, added = True, removed = False, value = newString\<rparr>]
        else searchResult newString oldString script"
    by blast
  have "list_all oneFlag script"
    using c searchResult_components [of newString oldString script]
    by (auto simp: oneFlag_def list_all_iff split: if_splits)
  moreover have "list_all hasCount script"
    if "oldString \<noteq> newString \<and> oldString \<noteq> [] \<and> newString \<noteq> []"
    using c that searchResult_components [of newString oldString script]
    by (auto simp: list_all_iff split: if_splits)
  ultimately show ?thesis using r by blast
qed

theorem diffChars_components_witness:
  "''abc'' \<noteq> ''abXc'' \<and> ''abc'' \<noteq> [] \<and> ''abXc'' \<noteq> []
   \<and> (\<exists>script. diffChars ''abc'' ''abXc'' = Inr script
         \<and> list_all oneFlag script \<and> list_all hasCount script)"
  using diffChars_components [of "''abc''" "''abXc''"] by simp

theorem diffChars_count_counterexample:
  "diffChars ''a'' ''a'' = Inr [\<lparr>count = None, added = False, removed = False, value = ''a''\<rparr>]
   \<and> \<not> hasCount \<lparr>count = None, added = False, removed = False, value = ''a''\<rparr>"
  by (simp add: diffChars_def hasCount_def)

section \<open>The choice of the path to branch from\<close>

text \<open>
  Claim C4, as the code selects. When the search visits a diagonal \<open>k\<close> and both the insert
  predecessor \<open>bestPath[k - 1]\<close> and the delete predecessor \<open>bestPath[k + 1]\<close> can be
  extended, it branches from the delete-derived path iff the insert predecessor's position
  in the new sequence is strictly less than the delete predecessor's; otherwise, ties
  included, it branches from the insert-derived path. It extends the selected path by its
  common run and returns it or keeps it as the best path of diagonal \<open>k\<close>.
\<close>

theorem tie_break:
  assumes "diag \<le> e"
    and "bp (diag - 1) = Some a" and "bp (diag + 1) = Some r"
    and "canAdd (Some a) (int (length n))"
    and "canRemove (Some r) (newPos r - diag) (int (length o'))"
  shows "diagonalLoop n o' e diag bp =
     (case extractCommon
             (if newPos a < newPos r
              then (clonePath r)\<lparr>components :=
                      pushComponent (components (clonePath r)) False True\<rparr>
              else a\<lparr>newPos := newPos a + 1,
                      components := pushComponent (components a) True False\<rparr>)
             n o' diag of
        (basePath', opos') \<Rightarrow>
          if int (length n) \<le> newPos basePath' + 1 \<and> int (length o') \<le> opos' + 1
          then Return (buildValues (components basePath') n o')
          else diagonalLoop n o' e (diag + 2) (bp(diag - 1 := None, diag \<mapsto> basePath')))"
  using assms
  by (subst diagonalLoop_unfold) (simp_all add: basePathOf_def fromRemove_def)

text \<open>Two runs in which the second pass finds both predecessors of diagonal 0
  extendable. In \<open>diff("ab", "ba")\<close> the insert predecessor is at position 0 and the delete
  predecessor at position 1; in \<open>diff("ab", "bb")\<close> both are at position 0. In both, the
  pass has pruned diagonal \<open>-2\<close> before.\<close>

lemma returned_Some: "returned out = Some ret \<Longrightarrow> out = Return ret"
  by (cases out) (simp_all add: returned_def)

lemma ab_ba_second_pass:
  "passTable ''ba'' ''ab'' 1 (- 1) =
     Some \<lparr>newPos = 0, components =
             [\<lparr>change.count = 1, added = False, removed = True\<rparr>,
              \<lparr>change.count = 1, added = False, removed = False\<rparr>]\<rparr>"
  "passTable ''ba'' ''ab'' 1 1 =
     Some \<lparr>newPos = 1, components =
             [\<lparr>change.count = 1, added = True, removed = False\<rparr>,
              \<lparr>change.count = 1, added = False, removed = False\<rparr>]\<rparr>"
  "passTable ''ba'' ''ab'' 1 (- 3) = None"
  by code_simp+

lemma ab_bb_second_pass:
  "passTable ''bb'' ''ab'' 1 (- 1) =
     Some \<lparr>newPos = 0, components =
             [\<lparr>change.count = 1, added = False, removed = True\<rparr>,
              \<lparr>change.count = 1, added = False, removed = False\<rparr>]\<rparr>"
  "passTable ''bb'' ''ab'' 1 1 =
     Some \<lparr>newPos = 0, components = [\<lparr>change.count = 1, added = True, removed = False\<rparr>]\<rparr>"
  "passTable ''bb'' ''ab'' 1 (- 3) = None"
  by code_simp+

lemma ab_ba_reaches_diagonal_0:
  "execEditLength ''ba'' ''ab'' 2 (passTable ''ba'' ''ab'' 1)
     = diagonalLoop ''ba'' ''ab'' 2 0 ((passTable ''ba'' ''ab'' 1)(- 2 := None))"
  unfolding execEditLength_def using ab_ba_second_pass
  by (subst diagonalLoop.simps) (simp add: canAdd_def canRemove_def)

lemma ab_bb_reaches_diagonal_0:
  "execEditLength ''bb'' ''ab'' 2 (passTable ''bb'' ''ab'' 1)
     = diagonalLoop ''bb'' ''ab'' 2 0 ((passTable ''bb'' ''ab'' 1)(- 2 := None))"
  unfolding execEditLength_def using ab_bb_second_pass
  by (subst diagonalLoop.simps) (simp add: canAdd_def canRemove_def)


theorem tie_break_witness:
  "(0 :: int) \<le> 2
   \<and> ((passTable ''bb'' ''ab'' 1)(- 2 := None)) (0 - 1) =
       Some \<lparr>newPos = 0, components =
               [\<lparr>change.count = 1, added = False, removed = True\<rparr>,
                \<lparr>change.count = 1, added = False, removed = False\<rparr>]\<rparr>
   \<and> ((passTable ''bb'' ''ab'' 1)(- 2 := None)) (0 + 1) =
       Some \<lparr>newPos = 0, components = [\<lparr>change.count = 1, added = True, removed = False\<rparr>]\<rparr>
   \<and> canAdd (Some \<lparr>newPos = 0, components =
               [\<lparr>change.count = 1, added = False, removed = True\<rparr>,
                \<lparr>change.count = 1, added = False, removed = False\<rparr>]\<rparr>) (int (length ''bb''))
   \<and> canRemove (Some \<lparr>newPos = 0, components =
               [\<lparr>change.count = 1, added = True, removed = False\<rparr>]\<rparr>) (0 - 0) (int (length ''ab''))
   \<and> diagonalLoop ''bb'' ''ab'' 2 0 ((passTable ''bb'' ''ab'' 1)(- 2 := None)) =
       Return [\<lparr>count = Some 1, added = False, removed = True, value = ''a''\<rparr>,
               \<lparr>count = Some 1, added = False, removed = False, value = ''b''\<rparr>,
               \<lparr>count = Some 1, added = True, removed = False, value = ''b''\<rparr>]"
proof -
  let ?a = "\<lparr>newPos = 0, components =
               [\<lparr>change.count = 1, added = False, removed = True\<rparr>,
                \<lparr>change.count = 1, added = False, removed = False\<rparr>]\<rparr>"
  let ?r = "\<lparr>newPos = 0, components = [\<lparr>change.count = 1, added = True, removed = False\<rparr>]\<rparr>"
  let ?bp = "(passTable ''bb'' ''ab'' 1)(- 2 := None)"
  have h1: "(0 :: int) \<le> 2" by simp
  have h2: "?bp (0 - 1) = Some ?a" using ab_bb_second_pass(1) by simp
  have h3: "?bp (0 + 1) = Some ?r" using ab_bb_second_pass(2) by simp
  have h4: "canAdd (Some ?a) (int (length ''bb''))" by (simp add: canAdd_def)
  have h5: "canRemove (Some ?r) (newPos ?r - 0) (int (length ''ab''))" by (simp add: canRemove_def)
  have "returned (diagonalLoop ''bb'' ''ab'' 2 0 ?bp)
      = Some [\<lparr>count = Some 1, added = False, removed = True, value = ''a''\<rparr>,
               \<lparr>count = Some 1, added = False, removed = False, value = ''b''\<rparr>,
               \<lparr>count = Some 1, added = True, removed = False, value = ''b''\<rparr>]"
    by (subst tie_break [OF h1 h2 h3 h4 h5]) code_simp
  then have "diagonalLoop ''bb'' ''ab'' 2 0 ?bp
      = Return [\<lparr>count = Some 1, added = False, removed = True, value = ''a''\<rparr>,
               \<lparr>count = Some 1, added = False, removed = False, value = ''b''\<rparr>,
               \<lparr>count = Some 1, added = True, removed = False, value = ''b''\<rparr>]"
    by (rule returned_Some)
  then show ?thesis
    using h2 h3 h4 h5 by simp
qed

text \<open>In the second pass of \<open>diff("ab", "ba")\<close>, at diagonal 0, both predecessors can be
  extended and the insert predecessor is strictly behind the delete predecessor. The
  search branches from the delete-derived path and returns its script; branching from the
  insert-derived path would have returned another script.\<close>

theorem tie_break_counterexample:
  "passTable ''ba'' ''ab'' 1 (- 1) =
       Some \<lparr>newPos = 0, components =
               [\<lparr>change.count = 1, added = False, removed = True\<rparr>,
                \<lparr>change.count = 1, added = False, removed = False\<rparr>]\<rparr>
   \<and> passTable ''ba'' ''ab'' 1 1 =
       Some \<lparr>newPos = 1, components =
               [\<lparr>change.count = 1, added = True, removed = False\<rparr>,
                \<lparr>change.count = 1, added = False, removed = False\<rparr>]\<rparr>
   \<and> canAdd (passTable ''ba'' ''ab'' 1 (- 1)) 2
   \<and> canRemove (passTable ''ba'' ''ab'' 1 1) (1 - 0) 2
   \<and> newPos \<lparr>newPos = 0, components =
               [\<lparr>change.count = 1, added = False, removed = True\<rparr>,
                \<lparr>change.count = 1, added = False, removed = False\<rparr>]\<rparr>
       < newPos \<lparr>newPos = 1, components =
               [\<lparr>change.count = 1, added = True, removed = False\<rparr>,
                \<lparr>change.count = 1, added = False, removed = False\<rparr>]\<rparr>
   \<and> diagonalLoop ''ba'' ''ab'' 2 0 ((passTable ''ba'' ''ab'' 1)(- 2 := None)) =
       Return [\<lparr>count = Some 1, added = True, removed = False, value = ''b''\<rparr>,
               \<lparr>count = Some 1, added = False, removed = False, value = ''a''\<rparr>,
               \<lparr>count = Some 1, added = False, removed = True, value = ''b''\<rparr>]
   \<and> buildValues (components (fst (extractCommon
          \<lparr>newPos = 0 + 1, components = pushComponent
               [\<lparr>change.count = 1, added = False, removed = True\<rparr>,
                \<lparr>change.count = 1, added = False, removed = False\<rparr>] True False\<rparr>
          ''ba'' ''ab'' 0))) ''ba'' ''ab'' =
       [\<lparr>count = Some 1, added = False, removed = True, value = ''a''\<rparr>,
        \<lparr>count = Some 1, added = False, removed = False, value = ''b''\<rparr>,
        \<lparr>count = Some 1, added = True, removed = False, value = ''a''\<rparr>]
   \<and> diffChars ''ab'' ''ba'' =
       Inr [\<lparr>count = Some 1, added = True, removed = False, value = ''b''\<rparr>,
            \<lparr>count = Some 1, added = False, removed = False, value = ''a''\<rparr>,
            \<lparr>count = Some 1, added = False, removed = True, value = ''b''\<rparr>]"
proof -
  have "returned (diagonalLoop ''ba'' ''ab'' 2 0 ((passTable ''ba'' ''ab'' 1)(- 2 := None))) =
       Some [\<lparr>count = Some 1, added = True, removed = False, value = ''b''\<rparr>,
               \<lparr>count = Some 1, added = False, removed = False, value = ''a''\<rparr>,
               \<lparr>count = Some 1, added = False, removed = True, value = ''b''\<rparr>]"
    by code_simp
  then have loop: "diagonalLoop ''ba'' ''ab'' 2 0 ((passTable ''ba'' ''ab'' 1)(- 2 := None)) =
       Return [\<lparr>count = Some 1, added = True, removed = False, value = ''b''\<rparr>,
               \<lparr>count = Some 1, added = False, removed = False, value = ''a''\<rparr>,
               \<lparr>count = Some 1, added = False, removed = True, value = ''b''\<rparr>]"
    by (rule returned_Some)
  have other: "buildValues (components (fst (extractCommon
          \<lparr>newPos = 0 + 1, components = pushComponent
               [\<lparr>change.count = 1, added = False, removed = True\<rparr>,
                \<lparr>change.count = 1, added = False, removed = False\<rparr>] True False\<rparr>
          ''ba'' ''ab'' 0))) ''ba'' ''ab'' =
       [\<lparr>count = Some 1, added = False, removed = True, value = ''a''\<rparr>,
        \<lparr>count = Some 1, added = False, removed = False, value = ''b''\<rparr>,
        \<lparr>count = Some 1, added = True, removed = False, value = ''a''\<rparr>]"
    by code_simp
  have whole: "diffChars ''ab'' ''ba'' =
       Inr [\<lparr>count = Some 1, added = True, removed = False, value = ''b''\<rparr>,
            \<lparr>count = Some 1, added = False, removed = False, value = ''a''\<rparr>,
            \<lparr>count = Some 1, added = False, removed = True, value = ''b''\<rparr>]"
    by code_simp
  have "canAdd (passTable ''ba'' ''ab'' 1 (- 1)) 2" "canRemove (passTable ''ba'' ''ab'' 1 1) (1 - 0) 2"
    unfolding ab_ba_second_pass by (simp_all add: canAdd_def canRemove_def)
  then show ?thesis
    using ab_ba_second_pass(1,2) loop other whole by simp
qed

end
